theory Spec2Isabelle
  imports Complex_Main "HOL-Library.Word"
begin

unbundle bit_operations_syntax

section \<open>The block cache of cache/lru\_cache.cc\<close>

text \<open>
  The shard of the cache (\<open>LRUCacheShard\<close>), its primary hash table
  (\<open>LRUHandleTable\<close>), its auxiliary hot index (\<open>CBHTable\<close>) and the
  adaptive controller inside \<open>Lookup\<close> are embedded as functions on explicit state.

  Conventions of the embedding.
  \<^item> A handle (\<open>LRUHandle*\<close>) is an address; the handles live in a store
    \<open>heap :: addr \<Rightarrow> LRUHandle\<close>, shared by the tables and the LRU list, so that a
    write through one pointer is seen through every other.
  \<^item> A bucket chain (threaded through \<open>next_hash\<close>, resp. \<open>next_hash_cbht\<close>) is the
    list of its handles from the bucket head on; a \<open>LRUHandle**\<close> returned by
    \<open>FindPointer\<close> is a pair (bucket, position in the chain), the position past the end
    being the chain's terminating null slot.
  \<^item> The circular LRU list (threaded through \<open>next\<close>/\<open>prev\<close> around the sentinel
    \<open>lru_\<close>) is the list of its handles from \<open>lru_.next\<close> to \<open>lru_.prev\<close>; a
    handle has null links exactly when it is not in that list. A pointer into the list that
    may be the sentinel (\<open>lru_low_pri_\<close>) is an \<open>addr option\<close>, \<open>None\<close> the sentinel.
  \<^item> \<open>size_t\<close> is a 64-bit word and \<open>uint32_t\<close> a 32-bit word (both wrap);
    C \<open>int\<close> values are integers (signed overflow is undefined in the source and not
    modelled); a \<open>double\<close> is a real number.
  \<^item> Arrays that the source indexes freely (\<open>DCA_ref_pool\<close>, the per-shard counters)
    are functions from the index, zero-initialised where the source uses calloc.
  \<^item> The constants and globals of the header that the file uses (\<open>CBHTbitlength\<close>,
    \<open>threadcount\<close>, \<open>CBHTturnoff\<close>, ...) are the fields of \<open>Config\<close>;
    \<open>getmytid()\<close> is the argument \<open>mytid\<close>.
  \<^item> Locks, the \<open>Holdvalue\<close> marker, timing and the statistics counters that are only
    printed have no effect on the results and are left out; asserts are compiled out, save
    the one of \<open>MaintainPoolSize\<close> whose failure leaves the list.
\<close>

type_synonym addr = nat
type_synonym u32 = "32 word"
type_synonym size_t = "64 word"
type_synonym Slice = string

datatype CacheMetadataChargePolicy = kDontChargeCacheMetadata | kFullChargeCacheMetadata

datatype Priority = HIGH | LOW

datatype Status = OK | OkOverwritten | Incomplete

record Config =
  CBHTbitlength :: nat
  threadcount :: nat
  CBHTturnoff :: int
  DCAflush :: int
  NLIMIT :: int
  PADDING :: nat
  shardnumlimit :: nat
  numshardbits :: nat
  sizeof_LRUHandle :: nat

record SecondaryCacheResultHandle =
  sec_Value :: nat
  sec_Size :: size_t

record CacheItemHelper =
  saveto_cb :: bool
  del_cb :: bool

text \<open>
  The handle. \<open>value_ptr\<close> is \<open>void* value\<close> (0 the null pointer); the bits of
  \<open>flags\<close> are one field each; \<open>indca\<close>, \<open>DCAstamp\<close> and \<open>DCAstamp_tc\<close> are
  the fields the hot index adds.
\<close>

record LRUHandle =
  value_ptr :: nat
  sec_handle :: "SecondaryCacheResultHandle option"
  charge :: size_t
  key_data :: Slice
  hash :: u32
  refs :: u32
  in_cache :: bool
  is_high_pri :: bool
  in_high_pri_pool :: bool
  has_hit :: bool
  is_secondary_cache_compatible :: bool
  is_pending :: bool
  is_promoted :: bool
  indca :: bool
  DCAstamp :: int
  DCAstamp_tc :: int

type_synonym store = "addr \<Rightarrow> LRUHandle"

definition upd :: "store \<Rightarrow> addr \<Rightarrow> (LRUHandle \<Rightarrow> LRUHandle) \<Rightarrow> store" where
  "upd hp a f = hp(a := f (hp a))"

text \<open>C division of \<open>int\<close>s truncates towards zero.\<close>

definition c_div :: "int \<Rightarrow> int \<Rightarrow> int" where
  "c_div a b = sgn a * sgn b * (\<bar>a\<bar> div \<bar>b\<bar>)"

text \<open>
  \<open>CalcTotalCharge\<close> is declared in the header: the charge, plus the size of the handle
  under \<open>kFullChargeCacheMetadata\<close>.
\<close>

definition CalcTotalCharge :: "Config \<Rightarrow> CacheMetadataChargePolicy \<Rightarrow> LRUHandle \<Rightarrow> size_t" where
  "CalcTotalCharge cfg pol e =
     charge e + (if pol = kFullChargeCacheMetadata
                 then of_nat (sizeof_LRUHandle cfg - 1 + length (key_data e)) else 0)"

subsection \<open>LRUHandleTable\<close>

record LRUHandleTable =
  length_bits_ht :: nat
  list_ht :: "nat \<Rightarrow> addr list"
  elems_ht :: u32
  max_length_bits_ht :: nat

definition LRUHandleTable_new :: "nat \<Rightarrow> LRUHandleTable" where
  "LRUHandleTable_new max_upper_hash_bits =
     \<lparr>length_bits_ht = 4, list_ht = (\<lambda>_. []), elems_ht = 0, max_length_bits_ht = max_upper_hash_bits\<rparr>"

text \<open>The walk of \<open>FindPointer\<close> along one chain: the position where it stops.\<close>

fun chain_find :: "store \<Rightarrow> Slice \<Rightarrow> u32 \<Rightarrow> addr list \<Rightarrow> nat" where
  "chain_find hp k h [] = 0"
| "chain_find hp k h (a # as) =
     (if hash (hp a) \<noteq> h \<or> k \<noteq> key_data (hp a) then Suc (chain_find hp k h as) else 0)"

definition bucket_index :: "nat \<Rightarrow> u32 \<Rightarrow> nat" where
  "bucket_index bits h = unat (drop_bit (32 - bits) h)"

definition deref :: "addr list \<Rightarrow> nat \<Rightarrow> addr option" where
  "deref chain j = (if j < length chain then Some (chain ! j) else None)"

definition FindPointer :: "store \<Rightarrow> LRUHandleTable \<Rightarrow> Slice \<Rightarrow> u32 \<Rightarrow> nat \<times> nat" where
  "FindPointer hp t k h =
     (let i = bucket_index (length_bits_ht t) h in (i, chain_find hp k h (list_ht t i)))"

definition LRUHandleTable_Lookup :: "store \<Rightarrow> LRUHandleTable \<Rightarrow> Slice \<Rightarrow> u32 \<Rightarrow> addr option" where
  "LRUHandleTable_Lookup hp t k h =
     (let (i, j) = FindPointer hp t k h in deref (list_ht t i) j)"

text \<open>\<open>*ptr = h\<close> with \<open>h->next_hash\<close> set to the old handle's successor, or to null.\<close>

definition chain_store :: "addr list \<Rightarrow> nat \<Rightarrow> addr \<Rightarrow> addr list" where
  "chain_store chain j h = (if j < length chain then chain[j := h] else chain @ [h])"

text \<open>\<open>*ptr = result->next_hash\<close>.\<close>

definition chain_unlink :: "addr list \<Rightarrow> nat \<Rightarrow> addr list" where
  "chain_unlink chain j = take j chain @ drop (Suc j) chain"

definition Resize :: "store \<Rightarrow> LRUHandleTable \<Rightarrow> LRUHandleTable" where
  "Resize hp t =
     (if length_bits_ht t \<ge> max_length_bits_ht t then t
      else if length_bits_ht t \<ge> 31 then t
      else
        let new_length_bits = length_bits_ht t + 1;
            new_list = fold (\<lambda>h nl. let i = bucket_index new_length_bits (hash (hp h))
                                     in nl(i := h # nl i))
                         (concat (map (list_ht t) [0 ..< 2 ^ length_bits_ht t])) (\<lambda>_. [])
        in t\<lparr>list_ht := new_list, length_bits_ht := new_length_bits\<rparr>)"

definition LRUHandleTable_Insert :: "store \<Rightarrow> LRUHandleTable \<Rightarrow> addr \<Rightarrow> addr option \<times> LRUHandleTable" where
  "LRUHandleTable_Insert hp t h =
     (let (i, j) = FindPointer hp t (key_data (hp h)) (hash (hp h));
          old = deref (list_ht t i) j;
          t1 = t\<lparr>list_ht := (list_ht t)(i := chain_store (list_ht t i) j h)\<rparr>
      in if old = None then
           let t2 = t1\<lparr>elems_ht := elems_ht t1 + 1\<rparr>
           in (old, if drop_bit (length_bits_ht t2) (elems_ht t2) > 0 then Resize hp t2 else t2)
         else (old, t1))"

definition LRUHandleTable_Remove :: "store \<Rightarrow> LRUHandleTable \<Rightarrow> Slice \<Rightarrow> u32 \<Rightarrow> addr option \<times> LRUHandleTable" where
  "LRUHandleTable_Remove hp t k h =
     (let (i, j) = FindPointer hp t k h;
          result = deref (list_ht t i) j
      in if result \<noteq> None
         then (result, t\<lparr>list_ht := (list_ht t)(i := chain_unlink (list_ht t i) j), elems_ht := elems_ht t - 1\<rparr>)
         else (result, t))"

subsection \<open>CBHTable, the auxiliary hot index\<close>

record CBHTable =
  elems_cbht :: u32
  length_bits_cbht :: nat
  list_cbht :: "nat \<Rightarrow> addr list"
  hashkeylist :: "(Slice \<times> u32) list"
  DCA_ref_pool :: "int \<Rightarrow> int"
  stampincr :: nat
  availindex :: int

definition CBHTable_new :: "Config \<Rightarrow> CBHTable" where
  "CBHTable_new cfg =
     \<lparr>elems_cbht = 0, length_bits_cbht = CBHTbitlength cfg, list_cbht = (\<lambda>_. []),
      hashkeylist = [], DCA_ref_pool = (\<lambda>_. 0), stampincr = 0,
      availindex = 2 ^ CBHTbitlength cfg * int (threadcount cfg)\<rparr>"

definition CBHTable_FindPointer :: "store \<Rightarrow> CBHTable \<Rightarrow> Slice \<Rightarrow> u32 \<Rightarrow> nat \<times> nat" where
  "CBHTable_FindPointer hp t k h =
     (let i = bucket_index (length_bits_cbht t) h in (i, chain_find hp k h (list_cbht t i)))"

text \<open>The sanity check on a stamp snapshot that Lookup, Remove and Unref share.\<close>

definition stamp_valid :: "Config \<Rightarrow> int \<Rightarrow> bool" where
  "stamp_valid cfg stamptmp \<longleftrightarrow> stamptmp > -1 \<and> stamptmp < 2 ^ CBHTbitlength cfg"

definition CBHTable_Lookup ::
  "Config \<Rightarrow> int \<Rightarrow> store \<Rightarrow> CBHTable \<Rightarrow> Slice \<Rightarrow> u32 \<Rightarrow> addr option \<times> CBHTable" where
  "CBHTable_Lookup cfg mytid hp t k h =
     (let (i, j) = CBHTable_FindPointer hp t k h in
      case deref (list_cbht t i) j of
        None \<Rightarrow> (None, t)
      | Some p \<Rightarrow>
          let stamptmp = DCAstamp (hp p); stamptmp_tc = DCAstamp_tc (hp p)
          in (Some p,
              if stamp_valid cfg stamptmp
              then t\<lparr>DCA_ref_pool := (DCA_ref_pool t)
                        (stamptmp_tc + mytid := DCA_ref_pool t (stamptmp_tc + mytid) + 1)\<rparr>
              else t))"

definition CBHTable_Unref :: "Config \<Rightarrow> int \<Rightarrow> store \<Rightarrow> CBHTable \<Rightarrow> addr \<Rightarrow> CBHTable" where
  "CBHTable_Unref cfg mytid hp t e =
     (let stamptmp = DCAstamp (hp e); stamptmp_tc = DCAstamp_tc (hp e)
      in if stamp_valid cfg stamptmp
         then t\<lparr>DCA_ref_pool := (DCA_ref_pool t)
                   (stamptmp_tc + mytid := DCA_ref_pool t (stamptmp_tc + mytid) - 1)\<rparr>
         else t)"

text \<open>
  The loop of Remove over the thread ids: it adds the cells of the stamp's row to
  \<open>refstmp\<close> and, unless \<open>dontforce\<close>, zeroes them.
\<close>

definition tally_loop :: "nat \<Rightarrow> int \<Rightarrow> bool \<Rightarrow> (int \<Rightarrow> int) \<Rightarrow> int \<times> (int \<Rightarrow> int)" where
  "tally_loop n stamptmp_tc dontforce pool =
     fold (\<lambda>i (refstmp, p).
             (refstmp + p (stamptmp_tc + int i),
              if \<not> dontforce then p(stamptmp_tc + int i := 0) else p))
          [0 ..< n] (0, pool)"

definition CBHTable_Remove ::
  "Config \<Rightarrow> store \<Rightarrow> CBHTable \<Rightarrow> Slice \<Rightarrow> u32 \<Rightarrow> bool \<Rightarrow> addr option \<times> store \<times> CBHTable" where
  "CBHTable_Remove cfg hp t k h dontforce =
     (let (i, j) = CBHTable_FindPointer hp t k h in
      case deref (list_cbht t i) j of
        None \<Rightarrow> (None, hp, t)
      | Some result \<Rightarrow>
          let stamptmp = DCAstamp (hp result); stamptmp_tc = DCAstamp_tc (hp result)
          in if stamp_valid cfg stamptmp then
               let (refstmp, pool1) = tally_loop (threadcount cfg) stamptmp_tc dontforce (DCA_ref_pool t)
               in if dontforce \<and> refstmp \<noteq> 0 then (None, hp, t\<lparr>DCA_ref_pool := pool1\<rparr>)
                  else
                    let r = refs (hp result);
                        r' = (if sint r + refstmp < 0 then 0 else r + word_of_int refstmp);
                        hp' = upd hp result (\<lambda>e. e\<lparr>refs := r', DCAstamp := -1, indca := False\<rparr>);
                        pool2 = pool1(availindex t + stamptmp := 0)
                    in (Some result, hp',
                        t\<lparr>DCA_ref_pool := pool2,
                          list_cbht := (list_cbht t)(i := chain_unlink (list_cbht t i) j),
                          elems_cbht := elems_cbht t - 1\<rparr>)
             else (Some result, hp, t))"

text \<open>
  Modelled from the spec: the header's default for the third argument of
  \<open>CBHTable::Remove\<close>, which the two-argument calls of the shard use. The spec has
  eviction and Erase remove with force=true, that is \<open>dontforce = false\<close>.
\<close>

definition Remove_default_dontforce :: bool where
  "Remove_default_dontforce = False"

text \<open>
  \<open>EvictFIFO\<close>: at most \<open>hardlimit\<close> probes of the admission queue, stopping at the
  first handle that Remove (with \<open>dontforce\<close>) gives back.
\<close>

fun EvictFIFO_loop ::
  "nat \<Rightarrow> Config \<Rightarrow> int \<Rightarrow> store \<Rightarrow> CBHTable \<Rightarrow> addr option \<times> store \<times> CBHTable" where
  "EvictFIFO_loop 0 cfg mytid hp t = (None, hp, t)"
| "EvictFIFO_loop (Suc hardlimit) cfg mytid hp t =
     (case hashkeylist t of
        [] \<Rightarrow> (None, hp, t)
      | temp # rest \<Rightarrow>
          let t1 = t\<lparr>hashkeylist := rest\<rparr>;
              (e, t2) = CBHTable_Lookup cfg mytid hp t1 (fst temp) (snd temp)
          in case e of
               None \<Rightarrow> EvictFIFO_loop hardlimit cfg mytid hp t2
             | Some _ \<Rightarrow>
                 let (result, hp3, t3) = CBHTable_Remove cfg hp t2 (fst temp) (snd temp) True
                 in case result of
                      None \<Rightarrow> EvictFIFO_loop hardlimit cfg mytid hp3
                                (t3\<lparr>hashkeylist := hashkeylist t3 @ [temp]\<rparr>)
                    | Some r \<Rightarrow> (Some r, hp3, t3))"

definition EvictFIFO :: "Config \<Rightarrow> int \<Rightarrow> store \<Rightarrow> CBHTable \<Rightarrow> addr option \<times> store \<times> CBHTable" where
  "EvictFIFO cfg mytid hp t = EvictFIFO_loop (2 ^ CBHTbitlength cfg) cfg mytid hp t"

definition IsTableFull :: "CBHTable \<Rightarrow> bool" where
  "IsTableFull t \<longleftrightarrow> drop_bit (length_bits_cbht t - 1) (elems_cbht t) > 0"

text \<open>
  The scan for a free stamp: \<open>looped\<close> counts up to the capacity, \<open>i\<close> steps cyclically
  from \<open>stampincr\<close>; the first argument is the number of rounds left. \<open>None\<close> is the
  loop running out without a free slot.
\<close>

fun stamp_scan :: "nat \<Rightarrow> nat \<Rightarrow> int \<Rightarrow> (int \<Rightarrow> int) \<Rightarrow> nat \<Rightarrow> nat option \<times> (int \<Rightarrow> int)" where
  "stamp_scan 0 cap av pool i = (None, pool)"
| "stamp_scan (Suc left) cap av pool i =
     (let i' = (if Suc i \<ge> cap then 0 else Suc i)
      in if pool (av + int i') = 0 then (Some i', pool(av + int i' := 1))
         else stamp_scan left cap av pool i')"

definition CBHTable_Insert ::
  "Config \<Rightarrow> int \<Rightarrow> store \<Rightarrow> CBHTable \<Rightarrow> addr \<Rightarrow> addr option \<times> store \<times> CBHTable" where
  "CBHTable_Insert cfg mytid hp0 t0 h =
     (let (hp, t) = (if IsTableFull t0
                     then (let (r, hp1, t1) = EvictFIFO cfg mytid hp0 t0 in (hp1, t1))
                     else (hp0, t0))
      in if IsTableFull t then (Some h, hp, t)
         else
           let (i, j) = CBHTable_FindPointer hp t (key_data (hp h)) (hash (hp h));
               old = deref (list_cbht t i) j;
               t1 = t\<lparr>list_cbht := (list_cbht t)(i := chain_store (list_cbht t i) j h)\<rparr>;
               t2 = (if old = None then t1\<lparr>elems_cbht := elems_cbht t1 + 1\<rparr> else t1);
               t3 = t2\<lparr>hashkeylist := hashkeylist t2 @ [(key_data (hp h), hash (hp h))]\<rparr>;
               (found, pool') = stamp_scan (2 ^ CBHTbitlength cfg) (2 ^ CBHTbitlength cfg)
                                  (availindex t3) (DCA_ref_pool t3) (stampincr t3);
               stamptmp = (case found of None \<Rightarrow> 0 | Some s \<Rightarrow> s);
               t4 = t3\<lparr>DCA_ref_pool := pool',
                       stampincr := (case found of None \<Rightarrow> stampincr t3 | Some s \<Rightarrow> s)\<rparr>;
               hp' = upd hp h (\<lambda>e. e\<lparr>indca := True, DCAstamp := int stamptmp,
                                      DCAstamp_tc := int stamptmp * int (threadcount cfg)\<rparr>)
           in (old, hp', t4))"

subsection \<open>LRUCacheShard\<close>

text \<open>
  The state of a shard. Besides the members of the class it holds the handle store and
  four logs of what leaves the shard: \<open>freed\<close> (the handles \<open>Free()\<close> ran on, in
  order), \<open>deallocated\<close> (the handles released by a bare \<open>delete[]\<close>),
  \<open>sec_inserted\<close> (handles offered to the secondary cache) and \<open>sec_lookups\<close> (keys
  looked up in the secondary cache). The secondary cache is a collaborator: a function
  from the key to the result handle it returns, if any.
\<close>

record LRUCacheShard =
  capacity :: size_t
  high_pri_pool_usage :: size_t
  strict_capacity_limit :: bool
  high_pri_pool_ratio :: real
  high_pri_pool_capacity :: real
  table :: LRUHandleTable
  cbhtable :: CBHTable
  usage :: size_t
  lru_usage :: size_t
  lru :: "addr list"
  lru_low_pri :: "addr option"
  metadata_charge_policy :: CacheMetadataChargePolicy
  secondary_cache :: "(Slice \<Rightarrow> SecondaryCacheResultHandle option) option"
  heap :: store
  freed :: "addr list"
  deallocated :: "addr list"
  sec_inserted :: "addr list"
  sec_lookups :: "Slice list"

definition total_charge_of :: "Config \<Rightarrow> LRUCacheShard \<Rightarrow> addr \<Rightarrow> size_t" where
  "total_charge_of cfg s e = CalcTotalCharge cfg (metadata_charge_policy s) (heap s e)"

text \<open>
  Modelled from the spec: \<open>LRUHandle::Free\<close> is in the header. It runs the deleter of
  the value and releases the handle; the model records the handle in \<open>freed\<close>.
\<close>

definition Free :: "LRUCacheShard \<Rightarrow> addr \<Rightarrow> LRUCacheShard" where
  "Free s e = s\<lparr>freed := freed s @ [e]\<rparr>"

text \<open>\<open>e->prev\<close> for a handle of the list, \<open>None\<close> when it is the sentinel.\<close>

fun prev_of :: "addr option \<Rightarrow> addr list \<Rightarrow> addr \<Rightarrow> addr option" where
  "prev_of p [] e = None"
| "prev_of p (x # xs) e = (if x = e then p else prev_of (Some x) xs e)"

text \<open>\<open>p->next\<close> for a pointer into the list, \<open>None\<close> the sentinel on both sides.\<close>

fun next_of :: "addr list \<Rightarrow> addr option \<Rightarrow> addr option" where
  "next_of xs None = (case xs of [] \<Rightarrow> None | x # _ \<Rightarrow> Some x)"
| "next_of [] (Some p) = None"
| "next_of (x # xs) (Some p) =
     (if x = p then (case xs of [] \<Rightarrow> None | y # _ \<Rightarrow> Some y) else next_of xs (Some p))"

fun insert_after :: "addr \<Rightarrow> addr \<Rightarrow> addr list \<Rightarrow> addr list" where
  "insert_after p e [] = [e]"
| "insert_after p e (x # xs) = (if x = p then x # e # xs else x # insert_after p e xs)"

definition LRU_Remove :: "Config \<Rightarrow> LRUCacheShard \<Rightarrow> addr \<Rightarrow> LRUCacheShard" where
  "LRU_Remove cfg s e =
     (if e \<notin> set (lru s) then s
      else
        let total_charge = total_charge_of cfg s e
        in s\<lparr>lru_low_pri := (if lru_low_pri s = Some e then prev_of None (lru s) e else lru_low_pri s),
             lru := remove1 e (lru s),
             lru_usage := lru_usage s - total_charge,
             high_pri_pool_usage :=
               (if in_high_pri_pool (heap s e) then high_pri_pool_usage s - total_charge
                else high_pri_pool_usage s)\<rparr>)"

text \<open>
  \<open>MaintainPoolSize\<close>. \<open>None\<close> is the loop stepping \<open>lru_low_pri_\<close> onto the sentinel
  (the source asserts that it does not), or not ending.
\<close>

partial_function (option) MaintainPoolSize :: "Config \<Rightarrow> LRUCacheShard \<Rightarrow> LRUCacheShard option" where
  "MaintainPoolSize cfg s =
     (if real (unat (high_pri_pool_usage s)) > high_pri_pool_capacity s then
        (case next_of (lru s) (lru_low_pri s) of
           None \<Rightarrow> None
         | Some n \<Rightarrow>
             MaintainPoolSize cfg
               (s\<lparr>lru_low_pri := Some n,
                  heap := upd (heap s) n (\<lambda>h. h\<lparr>in_high_pri_pool := False\<rparr>),
                  high_pri_pool_usage := high_pri_pool_usage s - total_charge_of cfg s n\<rparr>))
      else Some s)"

definition LRU_Insert :: "Config \<Rightarrow> LRUCacheShard \<Rightarrow> addr \<Rightarrow> LRUCacheShard option" where
  "LRU_Insert cfg s e =
     (if e \<in> set (lru s) then Some s
      else
        let total_charge = total_charge_of cfg s e
        in if high_pri_pool_ratio s > 0 \<and> (is_high_pri (heap s e) \<or> has_hit (heap s e)) then
             (case MaintainPoolSize cfg
                     (s\<lparr>lru := lru s @ [e],
                        heap := upd (heap s) e (\<lambda>h. h\<lparr>in_high_pri_pool := True\<rparr>),
                        high_pri_pool_usage := high_pri_pool_usage s + total_charge\<rparr>) of
                None \<Rightarrow> None
              | Some s1 \<Rightarrow> Some (s1\<lparr>lru_usage := lru_usage s1 + total_charge\<rparr>))
           else
             Some (s\<lparr>lru := (case lru_low_pri s of
                               None \<Rightarrow> e # lru s
                             | Some p \<Rightarrow> insert_after p e (lru s)),
                     heap := upd (heap s) e (\<lambda>h. h\<lparr>in_high_pri_pool := False\<rparr>),
                     lru_low_pri := Some e,
                     lru_usage := lru_usage s + total_charge\<rparr>))"

text \<open>
  The removal from the hot index that eviction, overwriting and Erase share: under
  \<open>if(CBHTturnoff)\<close>, an entry with \<open>indca\<close> set is removed with the default of the
  third argument.
\<close>

definition remove_from_dca :: "Config \<Rightarrow> LRUCacheShard \<Rightarrow> addr \<Rightarrow> LRUCacheShard" where
  "remove_from_dca cfg s old =
     (if CBHTturnoff cfg \<noteq> 0 then
        (if indca (heap s old) then
           let (r, hp', t') = CBHTable_Remove cfg (heap s) (cbhtable s)
                                (key_data (heap s old)) (hash (heap s old)) Remove_default_dontforce
           in s\<lparr>heap := hp', cbhtable := t'\<rparr>
         else s)
      else s)"

text \<open>One round of the loop of \<open>EvictFromLRU\<close>, for \<open>old = lru_.next\<close>.\<close>

definition evict_one :: "Config \<Rightarrow> LRUCacheShard \<Rightarrow> addr \<Rightarrow> LRUCacheShard" where
  "evict_one cfg s old =
     (let s1 = LRU_Remove cfg s old;
          s2 = remove_from_dca cfg s1 old;
          (r, tbl) = LRUHandleTable_Remove (heap s2) (table s2) (key_data (heap s2 old)) (hash (heap s2 old));
          s3 = s2\<lparr>table := tbl\<rparr>;
          s4 = s3\<lparr>heap := upd (heap s3) old (\<lambda>h. h\<lparr>in_cache := False\<rparr>)\<rparr>;
          old_total_charge = total_charge_of cfg s4 old
      in s4\<lparr>usage := usage s4 - old_total_charge\<rparr>)"

lemma lru_remove_from_dca [simp]: "lru (remove_from_dca cfg s old) = lru s"
  by (simp add: remove_from_dca_def split: prod.splits)

lemma lru_evict_one: "lru (evict_one cfg s old) = lru (LRU_Remove cfg s old)"
  by (simp add: evict_one_def Let_def split: prod.splits)

lemma lru_LRU_Remove: "lru (LRU_Remove cfg s e) = remove1 e (lru s)"
  by (simp add: LRU_Remove_def Let_def remove1_idem)

function EvictFromLRU ::
  "Config \<Rightarrow> size_t \<Rightarrow> LRUCacheShard \<Rightarrow> addr list \<Rightarrow> LRUCacheShard \<times> addr list" where
  "EvictFromLRU cfg c s deleted =
     (if usage s + c > capacity s \<and> lru s \<noteq> []
      then EvictFromLRU cfg c (evict_one cfg s (hd (lru s))) (deleted @ [hd (lru s)])
      else (s, deleted))"
  by pat_completeness auto
termination
proof (relation "measure (\<lambda>(cfg, c, s, deleted). length (lru s))")
  show "wf (measure (\<lambda>(cfg, c, s, deleted). length (lru s)))" by simp
next
  fix cfg :: Config and c :: size_t and s :: LRUCacheShard and deleted :: "addr list"
  assume "capacity s < usage s + c \<and> lru s \<noteq> []"
  then obtain x xs where "lru s = x # xs" by (cases "lru s") auto
  then show "((cfg, c, evict_one cfg s (hd (lru s)), deleted @ [hd (lru s)]), (cfg, c, s, deleted))
               \<in> measure (\<lambda>(cfg, c, s, deleted). length (lru s))"
    by (simp add: lru_evict_one lru_LRU_Remove)
qed

declare EvictFromLRU.simps [simp del]

text \<open>
  The loop over \<open>last_reference_list\<close> once the mutex is released: offer the entry to
  the secondary cache, then free it.
\<close>

definition free_entries :: "LRUCacheShard \<Rightarrow> addr list \<Rightarrow> LRUCacheShard" where
  "free_entries s es =
     fold (\<lambda>entry s.
             Free (if secondary_cache s \<noteq> None \<and> is_secondary_cache_compatible (heap s entry)
                      \<and> \<not> is_promoted (heap s entry)
                   then s\<lparr>sec_inserted := sec_inserted s @ [entry]\<rparr> else s) entry)
          es s"

text \<open>
  \<open>InsertItem\<close>. The out-parameter \<open>Cache::Handle** handle\<close> is \<open>None\<close> when null and
  \<open>Some c\<close> with the content \<open>c\<close> of the caller's cell otherwise; the second component
  of the result is the cell afterwards.
\<close>

definition overwrite_old :: "Config \<Rightarrow> int \<Rightarrow> LRUCacheShard \<Rightarrow> addr \<Rightarrow> addr \<Rightarrow> addr list
    \<Rightarrow> LRUCacheShard \<times> addr list" where
  "overwrite_old cfg mytid s1 e old last_reference_list =
     (let s2 = s1\<lparr>heap := upd (heap s1) old (\<lambda>h. h\<lparr>in_cache := False\<rparr>)\<rparr>;
          (s3, lrl) =
            (if \<not> refs (heap s2 old) > 0 then
               let s3 = LRU_Remove cfg s2 old;
                   old_total_charge = total_charge_of cfg s3 old
               in (s3\<lparr>usage := usage s3 - old_total_charge\<rparr>, last_reference_list @ [old])
             else (s2, last_reference_list));
          s4 = (if CBHTturnoff cfg \<noteq> 0 then
                  (if indca (heap s3 old) then
                     let (r, hp', t') = CBHTable_Insert cfg mytid (heap s3) (cbhtable s3) e
                     in s3\<lparr>heap := hp', cbhtable := t'\<rparr>
                   else s3)
                else s3)
      in (s4, lrl))"

definition InsertItem ::
  "Config \<Rightarrow> int \<Rightarrow> LRUCacheShard \<Rightarrow> addr \<Rightarrow> addr option option \<Rightarrow> bool
    \<Rightarrow> (Status \<times> addr option option \<times> LRUCacheShard) option" where
  "InsertItem cfg mytid s0 e handle free_handle_on_fail =
     (let total_charge = total_charge_of cfg s0 e;
          (s, last_reference_list) = EvictFromLRU cfg total_charge s0 []
      in if usage s + total_charge > capacity s \<and> (strict_capacity_limit s \<or> handle = None) then
           let s1 = s\<lparr>heap := upd (heap s) e (\<lambda>h. h\<lparr>in_cache := False\<rparr>)\<rparr>
           in if handle = None then
                Some (OK, handle, free_entries s1 (last_reference_list @ [e]))
              else if free_handle_on_fail then
                Some (Incomplete, Some None,
                      free_entries (s1\<lparr>deallocated := deallocated s1 @ [e]\<rparr>) last_reference_list)
              else Some (Incomplete, handle, free_entries s1 last_reference_list)
         else
           let (old, tbl) = LRUHandleTable_Insert (heap s) (table s) e;
               s1 = s\<lparr>table := tbl, usage := usage s + total_charge\<rparr>;
               (st, s2, lrl) =
                 (case old of
                    None \<Rightarrow> (OK, s1, last_reference_list)
                  | Some old' \<Rightarrow>
                      let (s4, lrl) = overwrite_old cfg mytid s1 e old' last_reference_list
                      in (OkOverwritten, s4, lrl))
           in if handle = None then
                (if \<not> indca (heap s2 e) then
                   (case LRU_Insert cfg s2 e of
                      None \<Rightarrow> None
                    | Some s3 \<Rightarrow> Some (st, handle, free_entries s3 lrl))
                 else Some (st, handle, free_entries s2 lrl))
              else
                let s3 = (if \<not> indca (heap s2 e)
                          then s2\<lparr>heap := upd (heap s2) e (\<lambda>h. h\<lparr>refs := refs h + 1\<rparr>)\<rparr>
                          else s2)
                in Some (st, Some (Some e), free_entries s3 lrl))"

text \<open>
  \<open>Insert\<close> allocates the handle with \<open>new char[]\<close>: \<open>e\<close> is the address the
  allocator returns and \<open>mem\<close> what the memory holds. The fields that Insert does not
  write keep the content of \<open>mem\<close>.
\<close>

definition new_handle ::
  "LRUHandle \<Rightarrow> Slice \<Rightarrow> u32 \<Rightarrow> nat \<Rightarrow> size_t \<Rightarrow> CacheItemHelper option \<Rightarrow> Priority \<Rightarrow> LRUHandle" where
  "new_handle mem k h v c helper priority =
     mem\<lparr>value_ptr := v,
         in_cache := True, is_high_pri := (priority = HIGH), in_high_pri_pool := False,
         has_hit := False, is_secondary_cache_compatible := (helper \<noteq> None),
         is_pending := False, is_promoted := False,
         charge := c, key_data := k, hash := h, refs := 0, indca := False\<rparr>"

definition Insert ::
  "Config \<Rightarrow> int \<Rightarrow> LRUCacheShard \<Rightarrow> addr \<Rightarrow> LRUHandle \<Rightarrow> Slice \<Rightarrow> u32 \<Rightarrow> nat \<Rightarrow> size_t
    \<Rightarrow> CacheItemHelper option \<Rightarrow> addr option option \<Rightarrow> Priority
    \<Rightarrow> (Status \<times> addr option option \<times> LRUCacheShard) option" where
  "Insert cfg mytid s e mem k h v c helper handle priority =
     InsertItem cfg mytid
       (s\<lparr>heap := (heap s)(e := new_handle mem k h v c helper priority)\<rparr>) e handle True"

definition Release ::
  "Config \<Rightarrow> int \<Rightarrow> LRUCacheShard \<Rightarrow> addr option \<Rightarrow> bool \<Rightarrow> (bool \<times> LRUCacheShard) option" where
  "Release cfg mytid s handle force_erase =
     (case handle of
        None \<Rightarrow> Some (False, s)
      | Some e \<Rightarrow>
          if CBHTturnoff cfg \<noteq> 0 \<and> indca (heap s e) then
            Some (True, s\<lparr>cbhtable := CBHTable_Unref cfg mytid (heap s) (cbhtable s) e\<rparr>)
          else if CBHTturnoff cfg \<noteq> 0 \<and> indca (heap s e) then
            Some (True, s\<lparr>cbhtable := CBHTable_Unref cfg mytid (heap s) (cbhtable s) e\<rparr>)
          else
            let s1 = s\<lparr>heap := upd (heap s) e (\<lambda>h. h\<lparr>refs := refs h - 1\<rparr>)\<rparr>;
                last_reference = (refs (heap s1 e) = 0)
            in case (if last_reference \<and> in_cache (heap s1 e) then
                       (if usage s1 > capacity s1 \<or> force_erase then
                          let (r, tbl) = LRUHandleTable_Remove (heap s1) (table s1)
                                           (key_data (heap s1 e)) (hash (heap s1 e))
                          in Some (last_reference,
                                   s1\<lparr>table := tbl,
                                      heap := upd (heap s1) e (\<lambda>h. h\<lparr>in_cache := False\<rparr>)\<rparr>)
                        else
                          (case (if \<not> indca (heap s1 e) then LRU_Insert cfg s1 e else Some s1) of
                             None \<Rightarrow> None
                           | Some s2 \<Rightarrow> Some (False, s2)))
                     else Some (last_reference, s1)) of
                 None \<Rightarrow> None
               | Some (last_reference', s2) \<Rightarrow>
                   let s3 = (if last_reference' \<and>
                                (\<not> is_secondary_cache_compatible (heap s2 e) \<or> value_ptr (heap s2 e) \<noteq> 0)
                             then s2\<lparr>usage := usage s2 - total_charge_of cfg s2 e\<rparr> else s2);
                       s4 = (if last_reference' then Free s3 e else s3)
                   in Some (last_reference', s4))"

subsection \<open>The adaptive controller and Lookup\<close>

text \<open>
  The per-shard counters are global arrays of the header, indexed by
  \<open>hashshard = Shard(hash) * PADDING\<close>.
\<close>

record Globals =
  CBHTState :: "int \<Rightarrow> bool"
  totalhit :: "int \<Rightarrow> int"
  nohit :: "int \<Rightarrow> int"
  virtual_totalhit :: "int \<Rightarrow> int"
  virtual_nohit :: "int \<Rightarrow> int"
  N_hits :: "int \<Rightarrow> int"
  Nsupple :: "int \<Rightarrow> int"
  hitrate :: "int \<Rightarrow> int"
  sortarr :: "int \<Rightarrow> int"
  DCAskip_hit :: "int \<Rightarrow> int"
  DCAflush_hit :: "int \<Rightarrow> int"

definition Shard :: "Config \<Rightarrow> u32 \<Rightarrow> u32" where
  "Shard cfg h = h AND (push_bit (numshardbits cfg) 1 - 1)"

definition hashshard_of :: "Config \<Rightarrow> u32 \<Rightarrow> int" where
  "hashshard_of cfg h = uint (Shard cfg h * of_nat (PADDING cfg))"

text \<open>
  \<open>copyAndSort\<close>: the copy loop writes the cells \<open>0, PADDING, 2 * PADDING, ...\<close> below
  \<open>shardnumlimit * PADDING\<close>; \<open>qsort\<close> then sorts the first \<open>shardnumlimit\<close> ints of
  \<open>sortarr\<close> in ascending order (the order of \<open>cmpfunc\<close>).
\<close>

definition copy_hitrates :: "Config \<Rightarrow> Globals \<Rightarrow> int \<Rightarrow> int" where
  "copy_hitrates cfg g =
     fold (\<lambda>k sa. sa(int (k * PADDING cfg) := hitrate g (int (k * PADDING cfg))))
          [0 ..< (if PADDING cfg = 0 then 0 else shardnumlimit cfg)] (sortarr g)"

definition qsort_prefix :: "nat \<Rightarrow> (int \<Rightarrow> int) \<Rightarrow> int \<Rightarrow> int" where
  "qsort_prefix n arr =
     (let sorted_prefix = sort (map (\<lambda>i. arr (int i)) [0 ..< n])
      in (\<lambda>j. if 0 \<le> j \<and> j < int n then sorted_prefix ! nat j else arr j))"

definition copyAndSort :: "Config \<Rightarrow> Globals \<Rightarrow> Globals" where
  "copyAndSort cfg g = g\<lparr>sortarr := qsort_prefix (shardnumlimit cfg) (copy_hitrates cfg g)\<rparr>"

definition skip_median_of :: "Config \<Rightarrow> Globals \<Rightarrow> int" where
  "skip_median_of cfg g =
     c_div (sortarr g (c_div ((int (shardnumlimit cfg) - 1) * CBHTturnoff cfg) 100) + CBHTturnoff cfg) 2"

definition flush_median_of :: "Config \<Rightarrow> Globals \<Rightarrow> int" where
  "flush_median_of cfg g =
     c_div (sortarr g (c_div ((int (shardnumlimit cfg) - 1) * DCAflush cfg) 100) + DCAflush cfg) 2"

text \<open>
  The flush: \<open>while((evicted = cbhtable_.EvictFIFO()) != nullptr) LRU_Insert(evicted)\<close>.
\<close>

partial_function (option) flush_loop :: "Config \<Rightarrow> int \<Rightarrow> LRUCacheShard \<Rightarrow> LRUCacheShard option" where
  "flush_loop cfg mytid s =
     (case EvictFIFO cfg mytid (heap s) (cbhtable s) of
        (None, hp', t') \<Rightarrow> Some (s\<lparr>heap := hp', cbhtable := t'\<rparr>)
      | (Some evicted, hp', t') \<Rightarrow>
          (case LRU_Insert cfg (s\<lparr>heap := hp', cbhtable := t'\<rparr>) evicted of
             None \<Rightarrow> None
           | Some s2 \<Rightarrow> flush_loop cfg mytid s2))"

text \<open>
  The refill: while the hot index is not full and the LRU list is not empty, the handle
  \<open>temp\<close> is inserted into the hot index and unlinked from the list. \<open>temp\<close> starts as
  \<open>lru_.prev\<close> and moves to \<open>temp->prev\<close> as it is unlinked, so that it is
  \<open>lru_.prev\<close> in every round.
\<close>

definition refill_one :: "Config \<Rightarrow> int \<Rightarrow> LRUCacheShard \<Rightarrow> LRUCacheShard" where
  "refill_one cfg mytid s =
     (let temp = last (lru s);
          (r, hp', t') = CBHTable_Insert cfg mytid (heap s) (cbhtable s) temp
      in LRU_Remove cfg (s\<lparr>heap := hp', cbhtable := t'\<rparr>) temp)"

lemma lru_refill_one: "lru (refill_one cfg mytid s) = remove1 (last (lru s)) (lru s)"
  by (simp add: refill_one_def Let_def lru_LRU_Remove split: prod.splits)

function refill_loop :: "Config \<Rightarrow> int \<Rightarrow> LRUCacheShard \<Rightarrow> LRUCacheShard" where
  "refill_loop cfg mytid s =
     (if \<not> IsTableFull (cbhtable s) \<and> lru s \<noteq> []
      then refill_loop cfg mytid (refill_one cfg mytid s)
      else s)"
  by pat_completeness auto
termination
proof (relation "measure (\<lambda>(cfg, mytid, s). length (lru s))")
  show "wf (measure (\<lambda>(cfg, mytid, s). length (lru s)))" by simp
next
  fix cfg :: Config and mytid :: int and s :: LRUCacheShard
  assume "\<not> IsTableFull (cbhtable s) \<and> lru s \<noteq> []"
  then have "last (lru s) \<in> set (lru s)" by simp
  then have "length (remove1 (last (lru s)) (lru s)) < length (lru s)"
    by (simp add: length_remove1) (cases "lru s"; simp)
  then show "((cfg, mytid, refill_one cfg mytid s), (cfg, mytid, s))
               \<in> measure (\<lambda>(cfg, mytid, s). length (lru s))"
    by (simp add: lru_refill_one)
qed

declare refill_loop.simps [simp del]

text \<open>
  The decision taken when \<open>N[hashshard] > NLIMIT\<close>, for the shard index \<open>hs\<close> and the
  entry \<open>e\<close> that was just hit.
\<close>

definition adaptive_decision ::
  "Config \<Rightarrow> int \<Rightarrow> Globals \<Rightarrow> LRUCacheShard \<Rightarrow> int \<Rightarrow> addr \<Rightarrow> (Globals \<times> LRUCacheShard) option" where
  "adaptive_decision cfg mytid g s hs e =
     (let g1 = g\<lparr>N_hits := (N_hits g)(hs := 0)\<rparr>;
          hr = (if totalhit g1 hs > virtual_totalhit g1 hs
                then 100 - c_div (nohit g1 hs * 100) (totalhit g1 hs)
                else 100 - c_div (virtual_nohit g1 hs * 100) (virtual_totalhit g1 hs));
          g2 = g1\<lparr>hitrate := (hitrate g1)(hs := hr)\<rparr>;
          g3 = copyAndSort cfg g2;
          skip_median = skip_median_of cfg g3;
          flush_median = flush_median_of cfg g3;
          g4 = g3\<lparr>DCAskip_hit := (DCAskip_hit g3)(hs := skip_median),
                  DCAflush_hit := (DCAflush_hit g3)(hs := flush_median)\<rparr>;
          avg_skip_median =
            c_div (sum_list (map (\<lambda>i. DCAskip_hit g4 (int i)) [0 ..< shardnumlimit cfg]))
                  (int (shardnumlimit cfg));
          g5 = g4\<lparr>Nsupple := (Nsupple g4)(hs := c_div (NLIMIT cfg * avg_skip_median) 100)\<rparr>;
          avg_flush_median =
            c_div (sum_list (map (\<lambda>i. DCAflush_hit g5 (int i)) [0 ..< shardnumlimit cfg]))
                  (int (shardnumlimit cfg))
      in case (if DCAflush cfg \<noteq> 0 \<and> hitrate g5 hs < avg_flush_median
               then flush_loop cfg mytid s else Some s) of
           None \<Rightarrow> None
         | Some s1 \<Rightarrow>
             let (r, hp', t') = CBHTable_Insert cfg mytid (heap s1) (cbhtable s1) e;
                 s2 = s1\<lparr>heap := hp', cbhtable := t'\<rparr>;
                 s3 = refill_loop cfg mytid s2;
                 g6 = (if hitrate g5 hs > avg_skip_median
                       then g5\<lparr>CBHTState := (CBHTState g5)(hs := True)\<rparr> else g5);
                 g7 = g6\<lparr>nohit := (nohit g6)(hs := 0), totalhit := (totalhit g6)(hs := 0),
                         virtual_nohit := (virtual_nohit g6)(hs := 0),
                         virtual_totalhit := (virtual_totalhit g6)(hs := 0)\<rparr>
             in Some (g7, s3))"

text \<open>
  The first part of \<open>Lookup\<close>, under \<open>if(CBHTturnoff)\<close>: the check against the primary
  table and, when the hot index is on for the shard, the lookup in the hot index.
  \<open>Inl\<close> is a return from \<open>Lookup\<close>, \<open>Inr\<close> falls through to the path under the
  mutex.
\<close>

definition dca_path ::
  "Config \<Rightarrow> int \<Rightarrow> Globals \<Rightarrow> LRUCacheShard \<Rightarrow> Slice \<Rightarrow> u32
    \<Rightarrow> (addr option \<times> Globals \<times> LRUCacheShard) + (Globals \<times> LRUCacheShard)" where
  "dca_path cfg mytid g s k h =
     (let hs = hashshard_of cfg h in
      if CBHTturnoff cfg \<noteq> 0 then
        (case LRUHandleTable_Lookup (heap s) (table s) k h of
           None \<Rightarrow> Inl (None, g, s)
         | Some _ \<Rightarrow>
             if CBHTState g hs \<or> CBHTturnoff cfg = 100 then
               let (e, t') = CBHTable_Lookup cfg mytid (heap s) (cbhtable s) k h;
                   s1 = s\<lparr>cbhtable := t'\<rparr>;
                   g1 = g\<lparr>totalhit := (totalhit g)(hs := totalhit g hs + 1)\<rparr>
               in (case e of
                     Some e' \<Rightarrow> Inl (Some e', g1, s1)
                   | None \<Rightarrow>
                       let g2 = g1\<lparr>nohit := (nohit g1)(hs := nohit g1 hs + 1)\<rparr>
                       in Inr (if CBHTturnoff cfg \<noteq> 100 \<and> nohit g2 hs > Nsupple g2 hs
                               then g2\<lparr>CBHTState := (CBHTState g2)(hs := False)\<rparr> else g2,
                               s1))
             else Inr (g, s))
      else Inr (g, s))"

text \<open>The path under the mutex.\<close>

definition vanilla_path ::
  "Config \<Rightarrow> int \<Rightarrow> Globals \<Rightarrow> LRUCacheShard \<Rightarrow> Slice \<Rightarrow> u32
    \<Rightarrow> (addr option \<times> Globals \<times> LRUCacheShard) option" where
  "vanilla_path cfg mytid g s k h =
     (let hs = hashshard_of cfg h in
      case LRUHandleTable_Lookup (heap s) (table s) k h of
        None \<Rightarrow> Some (None, g, s)
      | Some e \<Rightarrow>
          let g1 = g\<lparr>virtual_totalhit := (virtual_totalhit g)(hs := virtual_totalhit g hs + 1)\<rparr>;
              g2 = (if \<not> indca (heap s e)
                    then g1\<lparr>virtual_nohit := (virtual_nohit g1)(hs := virtual_nohit g1 hs + 1)\<rparr>
                    else g1);
              s1 = LRU_Remove cfg s e;
              s2 = (if \<not> indca (heap s1 e)
                    then s1\<lparr>heap := upd (heap s1) e (\<lambda>x. x\<lparr>refs := refs x + 1\<rparr>)\<rparr> else s1);
              s3 = s2\<lparr>heap := upd (heap s2) e (\<lambda>x. x\<lparr>has_hit := True\<rparr>)\<rparr>
          in if CBHTturnoff cfg \<noteq> 0 then
               let g3 = g2\<lparr>N_hits := (N_hits g2)(hs := N_hits g2 hs + 1)\<rparr>
               in if N_hits g3 hs > NLIMIT cfg then
                    (case adaptive_decision cfg mytid g3 s3 hs e of
                       None \<Rightarrow> None
                     | Some (g4, s4) \<Rightarrow> Some (Some e, g4, s4))
                  else Some (Some e, g3, s3)
             else Some (Some e, g2, s3))"

definition Promote :: "Config \<Rightarrow> int \<Rightarrow> LRUCacheShard \<Rightarrow> addr \<Rightarrow> LRUCacheShard option" where
  "Promote cfg mytid s e =
     (case sec_handle (heap s e) of
        None \<Rightarrow> None
      | Some secondary_handle \<Rightarrow>
          let s1 = s\<lparr>heap := upd (heap s) e
                      (\<lambda>x. x\<lparr>is_pending := False, in_cache := True, is_promoted := True,
                             value_ptr := sec_Value secondary_handle,
                             charge := sec_Size secondary_handle\<rparr>)\<rparr>
          in if value_ptr (heap s1 e) \<noteq> 0 then
               (case InsertItem cfg mytid s1 e (Some (Some e)) False of
                  None \<Rightarrow> None
                | Some (st, hdl, s2) \<Rightarrow>
                    if st \<noteq> Incomplete
                    then Some (s2\<lparr>heap := upd (heap s2) e (\<lambda>x. x\<lparr>refs := refs x - 1\<rparr>)\<rparr>)
                    else Some s2)
             else Some (s1\<lparr>heap := upd (heap s1) e (\<lambda>x. x\<lparr>charge := 0, in_cache := False\<rparr>)\<rparr>))"

text \<open>
  The lookup in the secondary cache after a miss. \<open>e\<close> and \<open>mem\<close> are the address and
  the content of the memory allocated for the new handle.
\<close>

definition secondary_path ::
  "Config \<Rightarrow> int \<Rightarrow> LRUCacheShard \<Rightarrow> Slice \<Rightarrow> u32 \<Rightarrow> CacheItemHelper option \<Rightarrow> Priority \<Rightarrow> bool
    \<Rightarrow> addr \<Rightarrow> LRUHandle \<Rightarrow> (addr option \<times> LRUCacheShard) option" where
  "secondary_path cfg mytid s k h helper priority wait e mem =
     (case secondary_cache s of
        None \<Rightarrow> Some (None, s)
      | Some sc \<Rightarrow>
          (case helper of
             None \<Rightarrow> Some (None, s)
           | Some hl \<Rightarrow>
               if \<not> saveto_cb hl then Some (None, s)
               else
                 let s1 = s\<lparr>sec_lookups := sec_lookups s @ [k]\<rparr>
                 in case sc k of
                      None \<Rightarrow> Some (None, s1)
                    | Some secondary_handle \<Rightarrow>
                        let ent = mem\<lparr>in_cache := False, is_high_pri := (priority = HIGH),
                                       in_high_pri_pool := False, has_hit := False,
                                       is_secondary_cache_compatible := True,
                                       is_pending := False, is_promoted := False,
                                       key_data := k, hash := h, refs := 1, value_ptr := 0,
                                       sec_handle := Some secondary_handle\<rparr>;
                            s2 = s1\<lparr>heap := (heap s1)(e := ent)\<rparr>
                        in if wait then
                             (case Promote cfg mytid s2 e of
                                None \<Rightarrow> None
                              | Some s3 \<Rightarrow>
                                  if value_ptr (heap s3 e) = 0
                                  then Some (None,
                                         Free (s3\<lparr>heap := upd (heap s3) e (\<lambda>x. x\<lparr>refs := refs x - 1\<rparr>)\<rparr>) e)
                                  else Some (Some e, s3))
                           else Some (Some e,
                                  s2\<lparr>heap := upd (heap s2) e (\<lambda>x. x\<lparr>is_pending := True\<rparr>)\<rparr>)))"

definition Lookup ::
  "Config \<Rightarrow> int \<Rightarrow> Globals \<Rightarrow> LRUCacheShard \<Rightarrow> Slice \<Rightarrow> u32 \<Rightarrow> CacheItemHelper option \<Rightarrow> Priority
    \<Rightarrow> bool \<Rightarrow> addr \<Rightarrow> LRUHandle \<Rightarrow> (addr option \<times> Globals \<times> LRUCacheShard) option" where
  "Lookup cfg mytid g s k h helper priority wait e mem =
     (case dca_path cfg mytid g s k h of
        Inl r \<Rightarrow> Some r
      | Inr (g1, s1) \<Rightarrow>
          (case vanilla_path cfg mytid g1 s1 k h of
             None \<Rightarrow> None
           | Some (Some e', g2, s2) \<Rightarrow> Some (Some e', g2, s2)
           | Some (None, g2, s2) \<Rightarrow>
               (case secondary_path cfg mytid s2 k h helper priority wait e mem of
                  None \<Rightarrow> None
                | Some (r, s3) \<Rightarrow> Some (r, g2, s3))))"

subsection \<open>Construction\<close>

definition LRUCacheShard_new ::
  "Config \<Rightarrow> size_t \<Rightarrow> bool \<Rightarrow> real \<Rightarrow> CacheMetadataChargePolicy \<Rightarrow> nat
    \<Rightarrow> (Slice \<Rightarrow> SecondaryCacheResultHandle option) option \<Rightarrow> store \<Rightarrow> LRUCacheShard" where
  "LRUCacheShard_new cfg cap strict ratio pol max_upper_hash_bits sc hp =
     \<lparr>capacity = cap, high_pri_pool_usage = 0, strict_capacity_limit = strict,
      high_pri_pool_ratio = ratio, high_pri_pool_capacity = real (unat cap) * ratio,
      table = LRUHandleTable_new max_upper_hash_bits, cbhtable = CBHTable_new cfg,
      usage = 0, lru_usage = 0, lru = [], lru_low_pri = None,
      metadata_charge_policy = pol, secondary_cache = sc, heap = hp,
      freed = [], deallocated = [], sec_inserted = [], sec_lookups = []\<rparr>"

record LRUCache =
  num_shards :: nat
  shards :: "LRUCacheShard list"

definition LRUCache_new ::
  "Config \<Rightarrow> size_t \<Rightarrow> nat \<Rightarrow> bool \<Rightarrow> real \<Rightarrow> CacheMetadataChargePolicy
    \<Rightarrow> (Slice \<Rightarrow> SecondaryCacheResultHandle option) option \<Rightarrow> store \<Rightarrow> LRUCache" where
  "LRUCache_new cfg cap num_shard_bits strict ratio pol sc hp =
     (let n = 2 ^ num_shard_bits;
          per_shard = (cap + (of_nat n - 1)) div of_nat n
      in \<lparr>num_shards = n,
          shards = replicate n
            (LRUCacheShard_new cfg per_shard strict ratio pol (32 - num_shard_bits) sc hp)\<rparr>)"

text \<open>
  \<open>NewLRUCache\<close>; \<open>None\<close> is the null pointer. \<open>GetDefaultCacheShardBits\<close> is
  declared elsewhere and is an argument here.
\<close>

definition NewLRUCache ::
  "Config \<Rightarrow> (size_t \<Rightarrow> int) \<Rightarrow> size_t \<Rightarrow> int \<Rightarrow> bool \<Rightarrow> real \<Rightarrow> CacheMetadataChargePolicy
    \<Rightarrow> (Slice \<Rightarrow> SecondaryCacheResultHandle option) option \<Rightarrow> store \<Rightarrow> LRUCache option" where
  "NewLRUCache cfg GetDefaultCacheShardBits cap num_shard_bits strict ratio pol sc hp =
     (if num_shard_bits \<ge> 20 then None
      else if ratio < 0 \<or> ratio > 1 then None
      else
        let num_shard_bits' = (if num_shard_bits < 0 then GetDefaultCacheShardBits cap
                               else num_shard_bits)
        in Some (LRUCache_new cfg cap (nat num_shard_bits') strict ratio pol sc hp))"

subsection \<open>Invariants of the LRU list\<close>

text \<open>
  The high-priority pool is the part of the list behind \<open>lru_low_pri_\<close>.
  \<open>pool_ok\<close> is the bookkeeping that the shard maintains for it: no handle is
  linked twice, \<open>lru_low_pri_\<close> is the sentinel or a handle of the list,
  \<open>high_pri_pool_usage_\<close> is the total charge of the pool, the pool's capacity is not
  negative, and \<open>in_high_pri_pool\<close> is set on exactly the handles of the pool.
  \<open>pool_split\<close> says the same with the two parts of the list named.
\<close>

definition high_part :: "LRUCacheShard \<Rightarrow> addr list" where
  "high_part s = (case lru_low_pri s of None \<Rightarrow> lru s
                  | Some p \<Rightarrow> tl (dropWhile (\<lambda>x. x \<noteq> p) (lru s)))"

definition pool_ok :: "Config \<Rightarrow> LRUCacheShard \<Rightarrow> bool" where
  "pool_ok cfg s \<longleftrightarrow>
     distinct (lru s)
     \<and> (case lru_low_pri s of None \<Rightarrow> True | Some p \<Rightarrow> p \<in> set (lru s))
     \<and> high_pri_pool_usage s = sum_list (map (total_charge_of cfg s) (high_part s))
     \<and> 0 \<le> high_pri_pool_capacity s
     \<and> (\<forall>x \<in> set (lru s). in_high_pri_pool (heap s x) \<longleftrightarrow> x \<in> set (high_part s))"

definition pool_split :: "Config \<Rightarrow> LRUCacheShard \<Rightarrow> addr list \<Rightarrow> addr list \<Rightarrow> bool" where
  "pool_split cfg s lo hi \<longleftrightarrow>
     lru s = lo @ hi \<and> distinct (lo @ hi)
     \<and> lru_low_pri s = (if lo = [] then None else Some (last lo))
     \<and> high_pri_pool_usage s = sum_list (map (total_charge_of cfg s) hi)
     \<and> 0 \<le> high_pri_pool_capacity s
     \<and> (\<forall>x \<in> set lo. \<not> in_high_pri_pool (heap s x))
     \<and> (\<forall>x \<in> set hi. in_high_pri_pool (heap s x))"

text \<open>
  Two states that differ at most in the fields that \<open>MaintainPoolSize\<close>, resp.
  \<open>LRU_Insert\<close>, may write, the handles differing at most in \<open>in_high_pri_pool\<close>.
\<close>

definition unflag :: "store \<Rightarrow> store" where
  "unflag hp = (\<lambda>a. (hp a)\<lparr>in_high_pri_pool := False\<rparr>)"

definition same_but_pool :: "LRUCacheShard \<Rightarrow> LRUCacheShard \<Rightarrow> bool" where
  "same_but_pool s s' \<longleftrightarrow>
     (\<exists>lp hp u. s' = s\<lparr>lru_low_pri := lp, heap := hp, high_pri_pool_usage := u\<rparr>
                 \<and> unflag hp = unflag (heap s))"

definition same_but_lru :: "LRUCacheShard \<Rightarrow> LRUCacheShard \<Rightarrow> bool" where
  "same_but_lru s s' \<longleftrightarrow>
     (\<exists>l lp hp u lu. s' = s\<lparr>lru := l, lru_low_pri := lp, heap := hp, high_pri_pool_usage := u,
                             lru_usage := lu\<rparr>
                 \<and> unflag hp = unflag (heap s))"

text \<open>
  The handles chained in the primary table, resp. in the hot index.
\<close>

definition table_entries :: "LRUHandleTable \<Rightarrow> addr set" where
  "table_entries t = (\<Union>i. set (list_ht t i))"

definition cbht_entries :: "CBHTable \<Rightarrow> addr set" where
  "cbht_entries t = (\<Union>i. set (list_cbht t i))"

text \<open>
  The chains of a table are in order when no chain holds a handle twice, every handle
  stands in the bucket of its hash, and no chain holds two handles with the same hash and
  key. \<open>tbl_inv\<close> and \<open>cbht_inv\<close> say so of the primary table and of the
  hot index.
\<close>

definition chains_ok :: "store \<Rightarrow> nat \<Rightarrow> (nat \<Rightarrow> addr list) \<Rightarrow> bool" where
  "chains_ok hp bits ch \<longleftrightarrow>
     (\<forall>i. distinct (ch i)
          \<and> (\<forall>a \<in> set (ch i). bucket_index bits (hash (hp a)) = i)
          \<and> (\<forall>a \<in> set (ch i). \<forall>b \<in> set (ch i).
                hash (hp a) = hash (hp b) \<and> key_data (hp a) = key_data (hp b) \<longrightarrow> a = b))"

definition tbl_inv :: "store \<Rightarrow> LRUHandleTable \<Rightarrow> bool" where
  "tbl_inv hp t \<longleftrightarrow> chains_ok hp (length_bits_ht t) (list_ht t)"

definition cbht_inv :: "store \<Rightarrow> CBHTable \<Rightarrow> bool" where
  "cbht_inv hp t \<longleftrightarrow> chains_ok hp (length_bits_cbht t) (list_cbht t)"

text \<open>Two stores whose handles have the same hashes and keys.\<close>

definition same_keys :: "store \<Rightarrow> store \<Rightarrow> bool" where
  "same_keys hp hp' \<longleftrightarrow> (\<forall>a. hash (hp' a) = hash (hp a) \<and> key_data (hp' a) = key_data (hp a))"

text \<open>
  \<open>lru_dca_ok\<close>: a handle of the LRU list that has \<open>indca\<close> set is chained in
  the hot index with a valid stamp, and the hot index is enabled. \<open>evict_inv\<close>
  collects what eviction relies on.
\<close>

definition lru_dca_ok :: "Config \<Rightarrow> LRUCacheShard \<Rightarrow> bool" where
  "lru_dca_ok cfg s \<longleftrightarrow>
     (\<forall>x \<in> set (lru s). indca (heap s x) \<longrightarrow>
        CBHTturnoff cfg \<noteq> 0 \<and> x \<in> cbht_entries (cbhtable s) \<and> stamp_valid cfg (DCAstamp (heap s x)))"

definition evict_inv :: "Config \<Rightarrow> LRUCacheShard \<Rightarrow> bool" where
  "evict_inv cfg s \<longleftrightarrow>
     distinct (lru s) \<and> tbl_inv (heap s) (table s) \<and> cbht_inv (heap s) (cbhtable s)
     \<and> lru_dca_ok cfg s"

text \<open>
  \<open>evicted_ok cfg s s' old\<close>: in \<open>s'\<close> the handle \<open>old\<close> is off the LRU
  list, out of the primary table and not in cache, and out of the hot index if it had
  \<open>indca\<close> set in \<open>s\<close>. \<open>evict_frame\<close> and \<open>evict_post\<close> state what
  the loop of \<open>EvictFromLRU\<close> keeps and reaches after \<open>n\<close> rounds.
\<close>

definition evicted_ok :: "Config \<Rightarrow> LRUCacheShard \<Rightarrow> LRUCacheShard \<Rightarrow> addr \<Rightarrow> bool" where
  "evicted_ok cfg s s' old \<longleftrightarrow>
     old \<notin> set (lru s') \<and> old \<notin> table_entries (table s') \<and> \<not> in_cache (heap s' old)
     \<and> (indca (heap s old) \<longrightarrow> old \<notin> cbht_entries (cbhtable s') \<and> \<not> indca (heap s' old))"

definition evict_frame :: "Config \<Rightarrow> LRUCacheShard \<Rightarrow> LRUCacheShard \<Rightarrow> bool" where
  "evict_frame cfg s s' \<longleftrightarrow>
     capacity s' = capacity s \<and> metadata_charge_policy s' = metadata_charge_policy s
     \<and> same_keys (heap s) (heap s') \<and> (\<forall>a. charge (heap s' a) = charge (heap s a))
     \<and> table_entries (table s') \<subseteq> table_entries (table s)
     \<and> cbht_entries (cbhtable s') \<subseteq> cbht_entries (cbhtable s)
     \<and> evict_inv cfg s'"

definition evict_post ::
  "Config \<Rightarrow> size_t \<Rightarrow> LRUCacheShard \<Rightarrow> addr list \<Rightarrow> nat \<Rightarrow> LRUCacheShard \<Rightarrow> addr list \<Rightarrow> bool" where
  "evict_post cfg c s deleted n s' deleted' \<longleftrightarrow>
          (\<not> usage s' + c > capacity s' \<or> lru s' = [])
        \<and> n \<le> length (lru s) \<and> deleted' = deleted @ take n (lru s) \<and> lru s' = drop n (lru s)
        \<and> usage s' = usage s - sum_list (map (total_charge_of cfg s) (take n (lru s)))
        \<and> (\<forall>a. a \<notin> set (take n (lru s)) \<longrightarrow> heap s' a = heap s a)
        \<and> (\<forall>old \<in> set (take n (lru s)). evicted_ok cfg s s' old)
        \<and> evict_frame cfg s s'"

text \<open>
  The address that \<open>new char[]\<close> returns to Insert is not linked into any structure of
  the shard.
\<close>

definition fresh :: "LRUCacheShard \<Rightarrow> addr \<Rightarrow> bool" where
  "fresh s e \<longleftrightarrow> e \<notin> set (lru s) \<and> e \<notin> table_entries (table s) \<and> e \<notin> cbht_entries (cbhtable s)"

text \<open>
  Two stores whose handles differ at most in the fields that the hot index writes:
  \<open>refs\<close>, \<open>indca\<close> and the stamp.
\<close>

definition dca_eq :: "store \<Rightarrow> store \<Rightarrow> bool" where
  "dca_eq hp hp' \<longleftrightarrow>
     (\<forall>a. hp' a = (hp a)\<lparr>refs := refs (hp' a), indca := indca (hp' a),
                          DCAstamp := DCAstamp (hp' a), DCAstamp_tc := DCAstamp_tc (hp' a)\<rparr>)"

subsection \<open>Concrete configurations and states\<close>

text \<open>
  A small configuration (hot index of 4 stamps, 2 threads, padding 16), zero-filled handle
  memory, and an empty shard of capacity 100; the theorems below are run on them.
\<close>

definition cfg0 :: Config where
  "cfg0 = \<lparr>CBHTbitlength = 2, threadcount = 2, CBHTturnoff = 50, DCAflush = 20, NLIMIT = 2,
           PADDING = 16, shardnumlimit = 2, numshardbits = 1, sizeof_LRUHandle = 72\<rparr>"

definition zeroed :: LRUHandle where
  "zeroed = \<lparr>value_ptr = 0, sec_handle = None, charge = 0, key_data = [], hash = 0, refs = 0,
             in_cache = False, is_high_pri = False, in_high_pri_pool = False, has_hit = False,
             is_secondary_cache_compatible = False, is_pending = False, is_promoted = False,
             indca = False, DCAstamp = 0, DCAstamp_tc = 0\<rparr>"

definition hp0 :: store where
  "hp0 = (\<lambda>_. zeroed)"

definition default_bits :: "size_t \<Rightarrow> int" where
  "default_bits cap = 4"

definition shard0 :: LRUCacheShard where
  "shard0 = LRUCacheShard_new cfg0 100 False 0 kDontChargeCacheMetadata 31 None hp0"

text \<open>
  A hot index holding the handle 7 under the key \<open>''k''\<close> with stamp 0; thread 0 has
  looked it up once and thread 1 has released it once.
\<close>

definition hp1 :: store where
  "hp1 = hp0(7 := zeroed\<lparr>key_data := ''k'', in_cache := True, indca := True\<rparr>)"

definition cbht1 :: CBHTable where
  "cbht1 = (CBHTable_new cfg0)
             \<lparr>elems_cbht := 1, list_cbht := (\<lambda>_. [])(0 := [7]), hashkeylist := [(''k'', 0)],
              DCA_ref_pool := (\<lambda>_. 0)(0 := 1, 1 := - 1, 8 := 1)\<rparr>"

text \<open>
  A shard holding the handle 7 in its hot index (the hot index of \<open>cbht1\<close>), a shard
  where the handle 7 is in the primary table with one outstanding reference, a hot index
  all of whose stamps are taken, and counters for two shards with hit rates 90 and 10.
\<close>

definition shard_aux :: LRUCacheShard where
  "shard_aux = shard0\<lparr>heap := hp1, cbhtable := cbht1\<rparr>"

definition shard_held :: LRUCacheShard where
  "shard_held = shard0
     \<lparr>heap := hp0(7 := zeroed\<lparr>key_data := ''a'', value_ptr := 5, charge := 40, refs := 1,
                              in_cache := True\<rparr>),
      table := (table shard0)\<lparr>list_ht := (\<lambda>_. [])(0 := [7]), elems_ht := 1\<rparr>,
      usage := 40\<rparr>"

definition cbht_taken :: CBHTable where
  "cbht_taken = (CBHTable_new cfg0)\<lparr>DCA_ref_pool := (\<lambda>_. 0)(8 := 1, 9 := 1, 10 := 1, 11 := 1)\<rparr>"

definition g0 :: Globals where
  "g0 = \<lparr>CBHTState = (\<lambda>_. False), totalhit = (\<lambda>_. 0), nohit = (\<lambda>_. 0),
          virtual_totalhit = (\<lambda>_. 0), virtual_nohit = (\<lambda>_. 0), N_hits = (\<lambda>_. 0),
          Nsupple = (\<lambda>_. 0), hitrate = (\<lambda>_. 0), sortarr = (\<lambda>_. 0),
          DCAskip_hit = (\<lambda>_. 0), DCAflush_hit = (\<lambda>_. 0)\<rparr>"

definition g_rates :: Globals where
  "g_rates = g0\<lparr>hitrate := (\<lambda>_. 0)(0 := 90, 16 := 10)\<rparr>"

text \<open>
  The median as the spec words it: the hit rates of all shards, sorted, indexed at
  \<open>(N_shards - 1) * ACTIVATE_PCTL / 100\<close>, averaged with \<open>ACTIVATE_PCTL\<close>.
\<close>

definition shard_hitrates :: "Config \<Rightarrow> Globals \<Rightarrow> int list" where
  "shard_hitrates cfg g = map (\<lambda>k. hitrate g (int (k * PADDING cfg))) [0 ..< shardnumlimit cfg]"

definition spec_skip_median :: "Config \<Rightarrow> Globals \<Rightarrow> int" where
  "spec_skip_median cfg g =
     c_div (sort (shard_hitrates cfg g) ! nat (c_div ((int (shardnumlimit cfg) - 1) * CBHTturnoff cfg) 100)
            + CBHTturnoff cfg) 2"

text \<open>
  A shard of capacity 100 with the handles 7 and 8 on the LRU list, each of charge 40, the
  handle 7 also chained in the hot index.
\<close>

definition shard_lru :: LRUCacheShard where
  "shard_lru = shard0
     \<lparr>heap := hp0(7 := zeroed\<lparr>key_data := ''a'', charge := 40, in_cache := True, indca := True\<rparr>,
                   8 := zeroed\<lparr>key_data := ''b'', charge := 40, in_cache := True, DCAstamp := - 1\<rparr>),
      table := (table shard0)\<lparr>list_ht := (\<lambda>_. [])(0 := [7, 8]), elems_ht := 2\<rparr>,
      cbhtable := (CBHTable_new cfg0)
             \<lparr>elems_cbht := 1, list_cbht := (\<lambda>_. [])(0 := [7]), hashkeylist := [(''a'', 0)],
              DCA_ref_pool := (\<lambda>_. 0)(8 := 1)\<rparr>,
      usage := 80, lru_usage := 80, lru := [7, 8], lru_low_pri := Some 8\<rparr>"

text \<open>The shard \<open>shard_lru\<close> with a strict capacity limit.\<close>

definition shard_strict :: LRUCacheShard where
  "shard_strict = shard_lru\<lparr>strict_capacity_limit := True\<rparr>"

text \<open>
  A helper with both callbacks, a shard with a secondary cache that holds nothing,
  counters with the hot index on for every shard, and the configuration \<open>cfg0\<close> with
  the hot index disabled.
\<close>

definition helper0 :: CacheItemHelper where
  "helper0 = \<lparr>saveto_cb = True, del_cb = True\<rparr>"

definition shard_sec :: LRUCacheShard where
  "shard_sec = shard0\<lparr>secondary_cache := Some (\<lambda>_. None)\<rparr>"

definition g_on :: Globals where
  "g_on = g0\<lparr>CBHTState := (\<lambda>_. True)\<rparr>"

definition cfg_off :: Config where
  "cfg_off = cfg0\<lparr>CBHTturnoff := 0\<rparr>"

text \<open>
  A shard whose hot index is full: the handles 7 and 8, of charge 40 each, are in the
  primary table and chained in the hot index with the stamps 0 and 1, no thread holds
  them, and the LRU list is empty.
\<close>

definition shard_hot :: LRUCacheShard where
  "shard_hot = shard0
     \<lparr>heap := hp0(7 := zeroed\<lparr>key_data := ''a'', value_ptr := 5, charge := 40, in_cache := True,
                              indca := True\<rparr>,
                   8 := zeroed\<lparr>key_data := ''b'', value_ptr := 4, charge := 40, in_cache := True,
                              indca := True, DCAstamp := 1, DCAstamp_tc := 2\<rparr>),
      table := (table shard0)\<lparr>list_ht := (\<lambda>_. [])(0 := [7, 8]), elems_ht := 2\<rparr>,
      cbhtable := (CBHTable_new cfg0)
             \<lparr>elems_cbht := 2, list_cbht := (\<lambda>_. [])(0 := [7, 8]),
              hashkeylist := [(''a'', 0), (''b'', 0)],
              DCA_ref_pool := (\<lambda>_. 0)(8 := 1, 9 := 1)\<rparr>,
      usage := 80\<rparr>"

lemmas ex_defs = cfg0_def zeroed_def hp0_def hp1_def cbht1_def shard0_def default_bits_def
  shard_aux_def shard_held_def cbht_taken_def g0_def g_rates_def

section \<open>Properties\<close>

lemma chain_find_le: "chain_find hp k h xs \<le> length xs"
  by (induction xs) auto


subsection \<open>CBHTable::Remove\<close>

lemma tally_loop_eq:
  "tally_loop n tc df pool =
     ((\<Sum>i = 0 ..< n. pool (tc + int i)),
      (\<lambda>j. if \<not> df \<and> tc \<le> j \<and> j < tc + int n then 0 else pool j))"
proof -
  have "fst (fold (\<lambda>i (refstmp, p). (refstmp + p (tc + int i),
                                      if \<not> df then p(tc + int i := 0) else p)) [0 ..< n] (r0, pool))
          = r0 + (\<Sum>i = 0 ..< n. pool (tc + int i))
      \<and> snd (fold (\<lambda>i (refstmp, p). (refstmp + p (tc + int i),
                                      if \<not> df then p(tc + int i := 0) else p)) [0 ..< n] (r0, pool))
          = (\<lambda>j. if \<not> df \<and> tc \<le> j \<and> j < tc + int n then 0 else pool j)" for r0
  proof (induction n)
    case 0
    then show ?case by (auto simp: fun_eq_iff)
  next
    case (Suc n)
    then show ?case by (auto simp: split_beta fun_eq_iff ac_simps)
  qed
  from this [of 0] show ?thesis
    by (simp add: tally_loop_def prod_eq_iff)
qed

text \<open>
  C1 (as amended). Let \<open>Remove(key, hash, dontforce)\<close> find the entry \<open>e\<close>, carrying a
  valid stamp, and let \<open>refstmp\<close> be the sum over the thread ids of the tally cells of
  the stamp's row. The spec's \<open>force\<close> is \<open>\<not> dontforce\<close>. If \<open>dontforce\<close> and
  \<open>refstmp \<noteq> 0\<close>, Remove returns null and changes nothing, so the entry stays indexed.
  Otherwise it returns the entry, adds \<open>refstmp\<close> to its refs (0 if the sum would be
  negative), sets its stamp to -1, clears \<open>indca\<close>, clears the availability cell of the
  stamp, unchains the entry and decrements the element count. The tally cells of the row
  are zeroed when forcing; with \<open>dontforce\<close> (and \<open>refstmp = 0\<close>) every cell but the
  availability cell is left as it was.
\<close>

theorem CBHTable_Remove_found:
  assumes "CBHTable_FindPointer hp t k h = (i, j)"
    and "deref (list_cbht t i) j = Some e"
    and "stamp_valid cfg (DCAstamp (hp e))"
  shows "let refstmp = (\<Sum>tid = 0 ..< threadcount cfg. DCA_ref_pool t (DCAstamp_tc (hp e) + int tid));
             (result, hp', t') = CBHTable_Remove cfg hp t k h dontforce
         in if dontforce \<and> refstmp \<noteq> 0
            then result = None \<and> hp' = hp \<and> t' = t
            else result = Some e
               \<and> refs (hp' e) = (if sint (refs (hp e)) + refstmp < 0 then 0
                                 else refs (hp e) + word_of_int refstmp)
               \<and> \<not> indca (hp' e) \<and> DCAstamp (hp' e) = -1
               \<and> DCA_ref_pool t' (availindex t + DCAstamp (hp e)) = 0
               \<and> (if dontforce
                  then \<forall>c. c \<noteq> availindex t + DCAstamp (hp e) \<longrightarrow> DCA_ref_pool t' c = DCA_ref_pool t c
                  else \<forall>tid < threadcount cfg. DCA_ref_pool t' (DCAstamp_tc (hp e) + int tid) = 0)
               \<and> list_cbht t' = (list_cbht t)(i := chain_unlink (list_cbht t i) j)
               \<and> elems_cbht t' = elems_cbht t - 1
               \<and> (\<forall>a. a \<noteq> e \<longrightarrow> hp' a = hp a)"
  using assms
  by (auto simp: CBHTable_Remove_def tally_loop_eq Let_def upd_def)

theorem CBHTable_Remove_found_witness:
  "CBHTable_FindPointer hp1 cbht1 ''k'' 0 = (0, 0)
   \<and> deref (list_cbht cbht1 0) 0 = Some 7
   \<and> stamp_valid cfg0 (DCAstamp (hp1 7))
   \<and> (case CBHTable_Remove cfg0 hp1 cbht1 ''k'' 0 False of
        (result, hp', t') \<Rightarrow>
          result = Some 7 \<and> \<not> indca (hp' 7) \<and> DCAstamp (hp' 7) = - 1
          \<and> DCA_ref_pool t' 8 = 0 \<and> (\<forall>tid<2. DCA_ref_pool t' (int tid) = 0)
          \<and> list_cbht t' 0 = [])"
proof -
  have a: "CBHTable_FindPointer hp1 cbht1 ''k'' 0 = (0, 0)"
    by (simp add: CBHTable_FindPointer_def bucket_index_def ex_defs CBHTable_new_def)
  have b: "deref (list_cbht cbht1 0) 0 = Some 7"
    by (simp add: deref_def ex_defs)
  have c: "stamp_valid cfg0 (DCAstamp (hp1 7))"
    by (simp add: stamp_valid_def ex_defs)
  have e: "availindex cbht1 + DCAstamp (hp1 7) = 8" "DCAstamp_tc (hp1 7) = 0"
    "threadcount cfg0 = 2" "list_cbht cbht1 0 = [7]"
    by (simp_all add: ex_defs CBHTable_new_def)
  show ?thesis
    using a b c CBHTable_Remove_found [OF a b c, of False]
    by (auto simp: Let_def split_beta chain_unlink_def e)
qed

text \<open>
  C1 as stated fails: with force=false (\<open>dontforce\<close>) and a row whose cells are 1 and
  -1, \<open>refstmp\<close> is 0 and the entry is removed, but the cells are not zeroed.
\<close>

theorem CBHTable_Remove_unforced_keeps_cells:
  "(\<Sum>tid = 0 ..< threadcount cfg0. DCA_ref_pool cbht1 (DCAstamp_tc (hp1 7) + int tid)) = 0
   \<and> (case CBHTable_Remove cfg0 hp1 cbht1 ''k'' 0 True of
        (result, hp', t') \<Rightarrow> result = Some 7 \<and> DCA_ref_pool t' 0 = 1 \<and> DCA_ref_pool t' 1 = - 1)"
  by (simp add: CBHTable_Remove_def CBHTable_FindPointer_def bucket_index_def deref_def
      stamp_valid_def tally_loop_eq Let_def ex_defs CBHTable_new_def numeral_2_eq_2)

subsection \<open>Release of a null handle\<close>

text \<open>
  C10. For both values of \<open>force_erase\<close>, Release of a null handle returns false and
  leaves the whole state of the shard as it was.
\<close>

theorem Release_null_handle:
  "Release cfg mytid s None force_erase = Some (False, s)"
  by (simp add: Release_def)

theorem Release_null_handle_witness:
  "Release cfg0 0 shard0 None True = Some (False, shard0)
   \<and> Release cfg0 0 shard0 None False = Some (False, shard0)"
  using Release_null_handle [of cfg0 0 shard0 True] Release_null_handle [of cfg0 0 shard0 False]
  by simp

subsection \<open>NewLRUCache\<close>

text \<open>
  C9 (as amended). NewLRUCache returns null exactly when \<open>num_shard_bits \<ge> 20\<close> or the
  ratio is below 0.0 or above 1.0. A negative \<open>num_shard_bits\<close> is not refused: it is
  replaced by \<open>GetDefaultCacheShardBits(capacity)\<close>. With \<open>num_shard_bits\<close> in
  [0, 19] and the ratio in [0.0, 1.0] the cache has \<open>2 ^ num_shard_bits\<close> shards.
\<close>

theorem NewLRUCache_null_iff:
  "(NewLRUCache cfg dflt cap num_shard_bits strict ratio pol sc hp = None
      \<longleftrightarrow> num_shard_bits \<ge> 20 \<or> ratio < 0 \<or> ratio > 1)
   \<and> (num_shard_bits < 0 \<and> 0 \<le> ratio \<and> ratio \<le> 1 \<longrightarrow>
        NewLRUCache cfg dflt cap num_shard_bits strict ratio pol sc hp
          = Some (LRUCache_new cfg cap (nat (dflt cap)) strict ratio pol sc hp))
   \<and> (0 \<le> num_shard_bits \<and> num_shard_bits < 20 \<and> 0 \<le> ratio \<and> ratio \<le> 1 \<longrightarrow>
        (\<exists>c. NewLRUCache cfg dflt cap num_shard_bits strict ratio pol sc hp = Some c
             \<and> num_shards c = 2 ^ nat num_shard_bits
             \<and> length (shards c) = 2 ^ nat num_shard_bits))"
  by (auto simp: NewLRUCache_def LRUCache_new_def Let_def)

theorem NewLRUCache_null_iff_witness:
  "NewLRUCache cfg0 default_bits 1000 20 False (1 / 2) kDontChargeCacheMetadata None hp0 = None
   \<and> NewLRUCache cfg0 default_bits 1000 3 False 2 kDontChargeCacheMetadata None hp0 = None
   \<and> (\<exists>c. NewLRUCache cfg0 default_bits 1000 3 False (1 / 2) kDontChargeCacheMetadata None hp0 = Some c
          \<and> num_shards c = 8 \<and> length (shards c) = 8)"
  using NewLRUCache_null_iff [of cfg0 default_bits 1000 20 False "1 / 2" kDontChargeCacheMetadata None hp0]
    NewLRUCache_null_iff [of cfg0 default_bits 1000 3 False 2 kDontChargeCacheMetadata None hp0]
    NewLRUCache_null_iff [of cfg0 default_bits 1000 3 False "1 / 2" kDontChargeCacheMetadata None hp0]
  by simp

text \<open>
  C9 as stated fails: \<open>num_shard_bits = -1\<close> lies outside [0, 19], and construction
  gives a cache, of 16 shards for a default of 4 bits.
\<close>

theorem NewLRUCache_negative_bits_succeeds:
  "\<not> (0 \<le> (- 1 :: int) \<and> (- 1 :: int) \<le> 19)
   \<and> NewLRUCache cfg0 default_bits 1000 (- 1) False (1 / 2) kDontChargeCacheMetadata None hp0
       = Some (LRUCache_new cfg0 1000 4 False (1 / 2) kDontChargeCacheMetadata None hp0)
   \<and> length (shards (LRUCache_new cfg0 1000 4 False (1 / 2) kDontChargeCacheMetadata None hp0)) = 16"
  by (simp add: NewLRUCache_def LRUCache_new_def default_bits_def Let_def)


subsection \<open>The LRU list and its pools\<close>

lemma dropWhile_last_split:
  "lo \<noteq> [] \<Longrightarrow> distinct (lo @ hi) \<Longrightarrow> tl (dropWhile (\<lambda>x. x \<noteq> last lo) (lo @ hi)) = hi"
proof (induction lo)
  case Nil
  then show ?case by simp
next
  case (Cons a lo)
  show ?case
  proof (cases "lo = []")
    case True
    then show ?thesis by simp
  next
    case False
    with Cons.prems have "a \<noteq> last lo" by auto
    with False Cons show ?thesis by simp
  qed
qed

lemma pool_split_ok: "pool_split cfg s lo hi \<Longrightarrow> pool_ok cfg s \<and> high_part s = hi"
  unfolding pool_split_def pool_ok_def high_part_def
  by (auto simp: dropWhile_last_split)

lemma pool_ok_split:
  assumes "pool_ok cfg s"
  shows "\<exists>lo hi. pool_split cfg s lo hi"
proof (cases "lru_low_pri s")
  case None
  with assms have "pool_split cfg s [] (lru s)"
    by (auto simp: pool_split_def pool_ok_def high_part_def)
  then show ?thesis by blast
next
  case (Some p)
  with assms have "p \<in> set (lru s)" by (simp add: pool_ok_def)
  then obtain ys zs where sp: "lru s = ys @ p # zs" by (auto dest: split_list)
  let ?lo = "ys @ [p]"
  have l: "lru s = ?lo @ zs" using sp by simp
  have d: "distinct (?lo @ zs)" using assms l by (simp add: pool_ok_def)
  have hp: "high_part s = zs"
    using dropWhile_last_split [of ?lo zs] d Some l by (simp add: high_part_def)
  have "pool_split cfg s ?lo zs"
    using assms Some l d hp unfolding pool_split_def pool_ok_def
    by auto
  then show ?thesis by blast
qed

lemma next_of_split:
  "distinct (lo @ hi) \<Longrightarrow>
   next_of (lo @ hi) (if lo = [] then None else Some (last lo)) = (case hi of [] \<Rightarrow> None | y # _ \<Rightarrow> Some y)"
proof (induction lo)
  case Nil
  then show ?case by (cases hi) auto
next
  case (Cons a lo)
  show ?case
  proof (cases "lo = []")
    case True
    then show ?thesis by (cases hi) auto
  next
    case False
    with Cons.prems have "a \<noteq> last lo" by auto
    with False Cons show ?thesis by simp
  qed
qed

lemma same_but_pool_refl: "same_but_pool s s"
  unfolding same_but_pool_def
  by (rule exI [of _ "lru_low_pri s"], rule exI [of _ "heap s"],
      rule exI [of _ "high_pri_pool_usage s"]) simp

lemma same_but_pool_trans:
  assumes "same_but_pool s s1" and "same_but_pool s1 s2"
  shows "same_but_pool s s2"
proof -
  from assms(1) obtain lp hp u where
    a: "s1 = s\<lparr>lru_low_pri := lp, heap := hp, high_pri_pool_usage := u\<rparr>" "unflag hp = unflag (heap s)"
    unfolding same_but_pool_def by blast
  from assms(2) obtain lp' hp' u' where
    b: "s2 = s1\<lparr>lru_low_pri := lp', heap := hp', high_pri_pool_usage := u'\<rparr>" "unflag hp' = unflag (heap s1)"
    unfolding same_but_pool_def by blast
  show ?thesis
    unfolding same_but_pool_def
    by (rule exI [of _ lp'], rule exI [of _ hp'], rule exI [of _ u']) (use a b in simp)
qed

lemma unflag_upd_flag [simp]: "unflag (upd hp a (\<lambda>h. h\<lparr>in_high_pri_pool := b\<rparr>)) = unflag hp"
  by (auto simp: unflag_def upd_def fun_eq_iff)

lemma unflag_total_charge:
  "unflag (heap s') = unflag (heap s) \<Longrightarrow> metadata_charge_policy s' = metadata_charge_policy s
   \<Longrightarrow> total_charge_of cfg s' x = total_charge_of cfg s x"
proof -
  assume a: "unflag (heap s') = unflag (heap s)" and b: "metadata_charge_policy s' = metadata_charge_policy s"
  from a have "unflag (heap s') x = unflag (heap s) x" by simp
  then have "charge (heap s' x) = charge (heap s x) \<and> key_data (heap s' x) = key_data (heap s x)"
    unfolding unflag_def
    by (metis LRUHandle.select_convs(3,4) LRUHandle.surjective LRUHandle.update_convs(9))
  with b show ?thesis by (simp add: total_charge_of_def CalcTotalCharge_def)
qed

lemma MaintainPoolSize_split:
  "pool_split cfg s lo hi \<Longrightarrow>
   \<exists>s' lo' hi'. MaintainPoolSize cfg s = Some s' \<and> pool_split cfg s' lo' hi'
       \<and> lo' @ hi' = lo @ hi \<and> same_but_pool s s'"
proof (induction "length hi" arbitrary: s lo hi rule: less_induct)
  case less
  note sp = less.prems
  show ?case
  proof (cases "real (unat (high_pri_pool_usage s)) > high_pri_pool_capacity s")
    case False
    then have "MaintainPoolSize cfg s = Some s"
      by (subst MaintainPoolSize.simps) simp
    with sp show ?thesis using same_but_pool_refl by blast
  next
    case True
    from sp have cap: "0 \<le> high_pri_pool_capacity s" by (simp add: pool_split_def)
    have "hi \<noteq> []"
    proof
      assume "hi = []"
      with sp have "high_pri_pool_usage s = 0" by (simp add: pool_split_def)
      with True cap show False by simp
    qed
    then obtain n hi' where hi: "hi = n # hi'" by (cases hi) auto
    from sp have l: "lru s = lo @ hi" and d: "distinct (lo @ hi)"
      and lp: "lru_low_pri s = (if lo = [] then None else Some (last lo))"
      by (simp_all add: pool_split_def)
    have nx: "next_of (lru s) (lru_low_pri s) = Some n"
      using next_of_split [OF d] l lp hi by simp
    define s1 where "s1 = s\<lparr>lru_low_pri := Some n,
                  heap := upd (heap s) n (\<lambda>h. h\<lparr>in_high_pri_pool := False\<rparr>),
                  high_pri_pool_usage := high_pri_pool_usage s - total_charge_of cfg s n\<rparr>"
    have step: "MaintainPoolSize cfg s = MaintainPoolSize cfg s1"
      using True nx by (subst MaintainPoolSize.simps) (simp add: s1_def)
    have "total_charge_of cfg s1 x = total_charge_of cfg s x" for x
      by (rule unflag_total_charge) (simp_all add: s1_def)
    then have tc: "total_charge_of cfg s1 = total_charge_of cfg s" by (simp add: fun_eq_iff)
    have s1f: "lru s1 = lru s" "lru_low_pri s1 = Some n"
      "high_pri_pool_usage s1 = high_pri_pool_usage s - total_charge_of cfg s n"
      "high_pri_pool_capacity s1 = high_pri_pool_capacity s"
      "heap s1 = upd (heap s) n (\<lambda>h. h\<lparr>in_high_pri_pool := False\<rparr>)"
      by (simp_all add: s1_def)
    have sp1: "pool_split cfg s1 (lo @ [n]) hi'"
      using sp hi unfolding pool_split_def
      by (auto simp: tc s1f upd_def split: if_splits)
    have sb: "same_but_pool s s1"
      unfolding same_but_pool_def s1_def
      by (rule exI [of _ "Some n"],
          rule exI [of _ "upd (heap s) n (\<lambda>h. h\<lparr>in_high_pri_pool := False\<rparr>)"],
          rule exI [of _ "high_pri_pool_usage s - total_charge_of cfg s n"]) simp
    from less.hyps [OF _ sp1] hi
    obtain s' lo' hi'' where "MaintainPoolSize cfg s1 = Some s'" "pool_split cfg s' lo' hi''"
      "lo' @ hi'' = (lo @ [n]) @ hi'" "same_but_pool s1 s'" by auto
    with step hi sb show ?thesis
      using same_but_pool_trans by (intro exI [of _ s'] exI [of _ lo'] exI [of _ hi'']) auto
  qed
qed

lemma same_but_pool_lru: "same_but_pool s s' \<Longrightarrow> same_but_lru s s'"
proof -
  assume "same_but_pool s s'"
  then obtain lp hp u where
    a: "s' = s\<lparr>lru_low_pri := lp, heap := hp, high_pri_pool_usage := u\<rparr>" "unflag hp = unflag (heap s)"
    unfolding same_but_pool_def by blast
  show ?thesis
    unfolding same_but_lru_def
    by (rule exI [of _ "lru s"], rule exI [of _ lp], rule exI [of _ hp], rule exI [of _ u],
        rule exI [of _ "lru_usage s"]) (use a in simp)
qed

lemma same_but_lru_refl: "same_but_lru s s"
  using same_but_pool_lru [OF same_but_pool_refl] .

lemma insert_after_split:
  "lo \<noteq> [] \<Longrightarrow> distinct (lo @ hi) \<Longrightarrow> insert_after (last lo) e (lo @ hi) = lo @ e # hi"
proof (induction lo)
  case Nil
  then show ?case by simp
next
  case (Cons a lo)
  show ?case
  proof (cases "lo = []")
    case True
    then show ?thesis by simp
  next
    case False
    with Cons.prems have "a \<noteq> last lo" by auto
    with False Cons show ?thesis by simp
  qed
qed

lemma LRU_Insert_split:
  assumes sp: "pool_split cfg s lo hi" and ne: "e \<notin> set (lru s)"
  shows "\<exists>s' lo' hi'. LRU_Insert cfg s e = Some s' \<and> pool_split cfg s' lo' hi'
           \<and> set (lru s') = insert e (set (lru s)) \<and> same_but_lru s s'"
proof (cases "high_pri_pool_ratio s > 0 \<and> (is_high_pri (heap s e) \<or> has_hit (heap s e))")
  case True
  define s0 where "s0 = s\<lparr>lru := lru s @ [e],
                        heap := upd (heap s) e (\<lambda>h. h\<lparr>in_high_pri_pool := True\<rparr>),
                        high_pri_pool_usage := high_pri_pool_usage s + total_charge_of cfg s e\<rparr>"
  have "total_charge_of cfg s0 x = total_charge_of cfg s x" for x
    by (rule unflag_total_charge) (simp_all add: s0_def)
  then have tc: "total_charge_of cfg s0 = total_charge_of cfg s" by (simp add: fun_eq_iff)
  have s0f: "lru s0 = lru s @ [e]" "lru_low_pri s0 = lru_low_pri s"
    "high_pri_pool_usage s0 = high_pri_pool_usage s + total_charge_of cfg s e"
    "high_pri_pool_capacity s0 = high_pri_pool_capacity s"
    "heap s0 = upd (heap s) e (\<lambda>h. h\<lparr>in_high_pri_pool := True\<rparr>)"
    by (simp_all add: s0_def)
  have sp0: "pool_split cfg s0 lo (hi @ [e])"
    using sp ne unfolding pool_split_def
    by (auto simp: tc s0f upd_def split: if_splits)
  from MaintainPoolSize_split [OF sp0] obtain s1 lo' hi' where
    m: "MaintainPoolSize cfg s0 = Some s1" "pool_split cfg s1 lo' hi'"
       "lo' @ hi' = lo @ hi @ [e]" "same_but_pool s0 s1"
    by auto
  from m(4) obtain lp hp u where
    s1: "s1 = s0\<lparr>lru_low_pri := lp, heap := hp, high_pri_pool_usage := u\<rparr>"
        "unflag hp = unflag (heap s0)"
    unfolding same_but_pool_def by blast
  define s' where "s' = s1\<lparr>lru_usage := lru_usage s1 + total_charge_of cfg s e\<rparr>"
  have r: "LRU_Insert cfg s e = Some s'"
    using True ne m(1) by (simp add: LRU_Insert_def Let_def s0_def s'_def)
  have "total_charge_of cfg s' x = total_charge_of cfg s1 x" for x
    by (simp add: s'_def total_charge_of_def)
  then have tc': "total_charge_of cfg s' = total_charge_of cfg s1" by (simp add: fun_eq_iff)
  have sp': "pool_split cfg s' lo' hi'"
    using m(2) unfolding pool_split_def by (simp add: tc') (simp add: s'_def)
  have l: "set (lru s') = insert e (set (lru s))"
    using sp' m(3) sp by (auto simp: pool_split_def)
  have sb: "same_but_lru s s'"
    unfolding same_but_lru_def
    by (rule exI [of _ "lru s @ [e]"], rule exI [of _ lp], rule exI [of _ hp], rule exI [of _ u],
        rule exI [of _ "lru_usage s + total_charge_of cfg s e"])
       (use s1 in \<open>simp add: s'_def s0_def\<close>)
  from r sp' l sb show ?thesis by blast
next
  case False
  define s' where "s' = s\<lparr>lru := (case lru_low_pri s of None \<Rightarrow> e # lru s
                                   | Some p \<Rightarrow> insert_after p e (lru s)),
                     heap := upd (heap s) e (\<lambda>h. h\<lparr>in_high_pri_pool := False\<rparr>),
                     lru_low_pri := Some e,
                     lru_usage := lru_usage s + total_charge_of cfg s e\<rparr>"
  have r: "LRU_Insert cfg s e = Some s'"
    using False ne by (auto simp: LRU_Insert_def Let_def s'_def)
  have "total_charge_of cfg s' x = total_charge_of cfg s x" for x
    by (rule unflag_total_charge) (simp_all add: s'_def)
  then have tc: "total_charge_of cfg s' = total_charge_of cfg s" by (simp add: fun_eq_iff)
  from sp have d: "distinct (lo @ hi)" and l: "lru s = lo @ hi"
    and lp: "lru_low_pri s = (if lo = [] then None else Some (last lo))"
    by (simp_all add: pool_split_def)
  have l': "lru s' = (lo @ [e]) @ hi"
    using l lp insert_after_split [OF _ d, of e] by (auto simp: s'_def)
  have s'f: "lru_low_pri s' = Some e"
    "high_pri_pool_usage s' = high_pri_pool_usage s"
    "high_pri_pool_capacity s' = high_pri_pool_capacity s"
    "heap s' = upd (heap s) e (\<lambda>h. h\<lparr>in_high_pri_pool := False\<rparr>)"
    by (simp_all add: s'_def)
  have sp': "pool_split cfg s' (lo @ [e]) hi"
    using sp ne l' unfolding pool_split_def
    by (auto simp: tc s'f upd_def split: if_splits)
  have ls: "set (lru s') = insert e (set (lru s))"
    using l' l by auto
  have sb: "same_but_lru s s'"
    unfolding same_but_lru_def
    by (rule exI [of _ "lru s'"], rule exI [of _ "Some e"],
        rule exI [of _ "upd (heap s) e (\<lambda>h. h\<lparr>in_high_pri_pool := False\<rparr>)"],
        rule exI [of _ "high_pri_pool_usage s"],
        rule exI [of _ "lru_usage s + total_charge_of cfg s e"])
       (simp add: s'_def)
  from r sp' ls sb show ?thesis by blast
qed

lemma LRU_Insert_ok:
  assumes "pool_ok cfg s"
  shows "\<exists>s'. LRU_Insert cfg s e = Some s' \<and> pool_ok cfg s'
           \<and> set (lru s') = insert e (set (lru s)) \<and> same_but_lru s s'"
proof (cases "e \<in> set (lru s)")
  case True
  then have "LRU_Insert cfg s e = Some s" by (simp add: LRU_Insert_def)
  with assms True show ?thesis using same_but_lru_refl by (auto simp: insert_absorb)
next
  case False
  from pool_ok_split [OF assms] obtain lo hi where "pool_split cfg s lo hi" by blast
  from LRU_Insert_split [OF this False] show ?thesis
    using pool_split_ok by blast
qed

lemma pool_ok_cong:
  assumes "lru s' = lru s" "lru_low_pri s' = lru_low_pri s"
    "high_pri_pool_usage s' = high_pri_pool_usage s"
    "high_pri_pool_capacity s' = high_pri_pool_capacity s"
    "metadata_charge_policy s' = metadata_charge_policy s"
    "\<And>x. charge (heap s' x) = charge (heap s x)"
    "\<And>x. key_data (heap s' x) = key_data (heap s x)"
    "\<And>x. in_high_pri_pool (heap s' x) = in_high_pri_pool (heap s x)"
  shows "pool_ok cfg s' = pool_ok cfg s"
proof -
  have "total_charge_of cfg s' x = total_charge_of cfg s x" for x
    by (simp add: total_charge_of_def CalcTotalCharge_def assms)
  then have tc: "total_charge_of cfg s' = total_charge_of cfg s" by (simp add: fun_eq_iff)
  show ?thesis
    by (simp add: pool_ok_def high_part_def tc assms cong: option.case_cong)
qed

lemma same_but_lru_freed: "same_but_lru s s' \<Longrightarrow> freed s' = freed s \<and> table s' = table s
    \<and> cbhtable s' = cbhtable s \<and> usage s' = usage s \<and> capacity s' = capacity s
    \<and> deallocated s' = deallocated s \<and> sec_inserted s' = sec_inserted s \<and> sec_lookups s' = sec_lookups s
    \<and> secondary_cache s' = secondary_cache s \<and> strict_capacity_limit s' = strict_capacity_limit s
    \<and> metadata_charge_policy s' = metadata_charge_policy s
    \<and> high_pri_pool_ratio s' = high_pri_pool_ratio s
    \<and> high_pri_pool_capacity s' = high_pri_pool_capacity s
    \<and> unflag (heap s') = unflag (heap s)"
  unfolding same_but_lru_def by auto


subsection \<open>Release\<close>

text \<open>
  C2 (as amended). In a state whose pool bookkeeping is in order, Release of a handle
  returns. If the hot index is enabled (\<open>CBHTturnoff \<noteq> 0\<close>) and the entry has
  \<open>indca\<close> set, it returns true although nothing is freed: the only change is the
  decrement of the caller's tally cell. In every other case it returns true if and only if
  the entry was freed by this call.
\<close>

theorem Release_result:
  assumes "pool_ok cfg s"
  shows "case Release cfg mytid s (Some e) force_erase of
           None \<Rightarrow> False
         | Some (r, s') \<Rightarrow>
             if CBHTturnoff cfg \<noteq> 0 \<and> indca (heap s e)
             then r \<and> freed s' = freed s \<and> s' = s\<lparr>cbhtable := CBHTable_Unref cfg mytid (heap s) (cbhtable s) e\<rparr>
             else freed s' = (if r then freed s @ [e] else freed s)"
proof (cases "CBHTturnoff cfg \<noteq> 0 \<and> indca (heap s e)")
  case True
  then show ?thesis by (auto simp: Release_def)
next
  case False
  then have F: "(CBHTturnoff cfg \<noteq> 0 \<and> indca (heap s e)) = False" by simp
  let ?s1 = "s\<lparr>heap := upd (heap s) e (\<lambda>h. h\<lparr>refs := refs h - 1\<rparr>)\<rparr>"
  have ok1: "pool_ok cfg ?s1"
    using assms
    by (subst pool_ok_cong [of ?s1 s]) (auto simp: upd_def)
  from LRU_Insert_ok [OF ok1, of e] obtain s2 where
    li: "LRU_Insert cfg ?s1 e = Some s2" and sb: "same_but_lru ?s1 s2" by blast
  have f2: "freed s2 = freed s" using same_but_lru_freed [OF sb] by simp
  consider (erase) "refs (heap ?s1 e) = 0" "in_cache (heap ?s1 e)" "usage s > capacity s \<or> force_erase"
    | (reinsert) "refs (heap ?s1 e) = 0" "in_cache (heap ?s1 e)" "\<not> (usage s > capacity s \<or> force_erase)"
    | (other) "\<not> (refs (heap ?s1 e) = 0 \<and> in_cache (heap ?s1 e))"
    by blast
  then show ?thesis
  proof cases
    case erase
    then show ?thesis
      by (simp add: F Release_def Let_def split_beta Free_def)
  next
    case reinsert
    then show ?thesis
      using li f2 by (simp add: F Release_def Let_def split_beta Free_def)
  next
    case other
    then show ?thesis
      by (simp add: F Release_def Let_def split_beta Free_def)
  qed
qed

theorem Release_result_witness:
  "pool_ok cfg0 shard_held
   \<and> (case Release cfg0 0 shard_held (Some 7) True of
        None \<Rightarrow> False | Some (r, s') \<Rightarrow> r \<and> freed s' = [7])
   \<and> (case Release cfg0 0 shard_held (Some 7) False of
        None \<Rightarrow> False | Some (r, s') \<Rightarrow> \<not> r \<and> freed s' = [] \<and> lru s' = [7])"
proof -
  have ok: "pool_ok cfg0 shard_held"
    by (simp add: pool_ok_def high_part_def ex_defs LRUCacheShard_new_def)
  have a: "case Release cfg0 0 shard_held (Some 7) True of
        None \<Rightarrow> False | Some (r, s') \<Rightarrow> r \<and> freed s' = [7]"
    using Release_result [OF ok, of 0 7 True]
    by (simp add: Release_def LRUHandleTable_Remove_def FindPointer_def bucket_index_def deref_def
        chain_unlink_def total_charge_of_def CalcTotalCharge_def Free_def upd_def Let_def
        ex_defs LRUCacheShard_new_def LRUHandleTable_new_def CBHTable_new_def)
  have b: "case Release cfg0 0 shard_held (Some 7) False of
        None \<Rightarrow> False | Some (r, s') \<Rightarrow> \<not> r \<and> freed s' = [] \<and> lru s' = [7]"
    using Release_result [OF ok, of 0 7 False]
    by (simp add: Release_def LRU_Insert_def total_charge_of_def CalcTotalCharge_def Free_def
        upd_def Let_def ex_defs LRUCacheShard_new_def LRUHandleTable_new_def CBHTable_new_def)
  from ok a b show ?thesis by simp
qed

text \<open>
  C2 as stated fails: for the entry 7 of the hot index Release returns true, and the
  entry is neither freed nor deallocated.
\<close>

theorem Release_true_without_free:
  "indca (heap shard_aux 7)
   \<and> (case Release cfg0 0 shard_aux (Some 7) False of
        None \<Rightarrow> False
      | Some (r, s') \<Rightarrow> r \<and> freed s' = [] \<and> deallocated s' = [] \<and> in_cache (heap s' 7))"
  by (simp add: Release_def ex_defs LRUCacheShard_new_def)

subsection \<open>The stamp of an entry outside the hot index\<close>

text \<open>
  C3 fails on the code. Insert clears \<open>indca\<close> on the new handle and never writes
  \<open>DCAstamp\<close>: on zero-filled memory the entry is outside the hot index with stamp 0,
  not -1. And when no stamp is free, \<open>CBHTable::Insert\<close> gives the entry the stamp 0
  that another entry holds.
\<close>

theorem Insert_leaves_stamp_unset:
  "(case Insert cfg0 0 shard0 7 zeroed ''a'' 0 5 40 None None LOW of
      None \<Rightarrow> False
    | Some (st, hdl, s') \<Rightarrow> st = OK \<and> \<not> indca (heap s' 7) \<and> DCAstamp (heap s' 7) = 0 \<and> lru s' = [7])
   \<and> (case CBHTable_Insert cfg0 0 hp0 cbht_taken 7 of
        (old, hp', t') \<Rightarrow> old = None \<and> indca (hp' 7) \<and> DCAstamp (hp' 7) = 0
                          \<and> DCA_ref_pool cbht_taken (availindex cbht_taken + 0) = 1)"
proof -
  have four: "(4::nat) = Suc (Suc (Suc (Suc 0)))" by simp
  have a: "case Insert cfg0 0 shard0 7 zeroed ''a'' 0 5 40 None None LOW of
      None \<Rightarrow> False
    | Some (st, hdl, s') \<Rightarrow> st = OK \<and> \<not> indca (heap s' 7) \<and> DCAstamp (heap s' 7) = 0 \<and> lru s' = [7]"
    by (simp add: Insert_def new_handle_def InsertItem_def EvictFromLRU.simps total_charge_of_def CalcTotalCharge_def
        LRUHandleTable_Insert_def FindPointer_def bucket_index_def deref_def chain_store_def
        LRU_Insert_def free_entries_def Free_def upd_def Let_def
        ex_defs LRUCacheShard_new_def LRUHandleTable_new_def CBHTable_new_def)
  have b: "case CBHTable_Insert cfg0 0 hp0 cbht_taken 7 of
        (old, hp', t') \<Rightarrow> old = None \<and> indca (hp' 7) \<and> DCAstamp (hp' 7) = 0
                          \<and> DCA_ref_pool cbht_taken (availindex cbht_taken + 0) = 1"
    by (simp add: CBHTable_Insert_def IsTableFull_def CBHTable_FindPointer_def bucket_index_def
        deref_def chain_store_def upd_def Let_def four ex_defs CBHTable_new_def)
  from a b show ?thesis by simp
qed

subsection \<open>The median of the hit rates\<close>

text \<open>
  C8 fails on the code when \<open>PADDING\<close> is not 1. \<open>copyAndSort\<close> copies the hit rates
  to the padded cells and sorts the first \<open>shardnumlimit\<close> cells: for two shards with
  hit rates 90 and 10 and a padding of 16 the sorted cells are 0 and 90, and the median
  for \<open>CBHTturnoff = 50\<close> is 25, where the sorted hit rates 10 and 90 give 30.
\<close>

theorem copyAndSort_sorts_wrong_cells:
  "shard_hitrates cfg0 g_rates = [90, 10]
   \<and> map (sortarr (copyAndSort cfg0 g_rates)) [0, 1] = [0, 90]
   \<and> skip_median_of cfg0 (copyAndSort cfg0 g_rates) = 25
   \<and> spec_skip_median cfg0 g_rates = 30"
proof -
  have upt2: "[0 ..< 2] = [0, Suc 0]" by (simp add: numeral_2_eq_2)
  show ?thesis
    by (simp add: shard_hitrates_def spec_skip_median_def skip_median_of_def copyAndSort_def
        copy_hitrates_def qsort_prefix_def c_div_def cfg0_def g_rates_def g0_def upt2 Let_def)
qed

lemma chain_find_match:
  "chain_find hp k h xs < length xs \<Longrightarrow>
   hash (hp (xs ! chain_find hp k h xs)) = h \<and> key_data (hp (xs ! chain_find hp k h xs)) = k"
  by (induction xs) (auto split: if_splits)

lemma chain_find_unique:
  assumes "a \<in> set xs"
    and "\<forall>b \<in> set xs. hash (hp a) = hash (hp b) \<and> key_data (hp a) = key_data (hp b) \<longrightarrow> a = b"
  shows "chain_find hp (key_data (hp a)) (hash (hp a)) xs < length xs
         \<and> xs ! chain_find hp (key_data (hp a)) (hash (hp a)) xs = a"
  using assms
proof (induction xs)
  case Nil
  then show ?case by simp
next
  case (Cons x xs)
  show ?case
  proof (cases "hash (hp x) \<noteq> hash (hp a) \<or> key_data (hp a) \<noteq> key_data (hp x)")
    case True
    with Cons.prems have "a \<in> set xs" by auto
    with Cons True show ?thesis by auto
  next
    case False
    with Cons.prems have "a = x" by auto
    with False show ?thesis by simp
  qed
qed

lemma chain_find_cong:
  "(\<And>a. a \<in> set xs \<Longrightarrow> hash (hp' a) = hash (hp a) \<and> key_data (hp' a) = key_data (hp a))
   \<Longrightarrow> chain_find hp' k h xs = chain_find hp k h xs"
  by (induction xs) auto

lemma set_chain_unlink: "set (chain_unlink xs j) \<subseteq> set xs"
  by (auto simp: chain_unlink_def dest: in_set_takeD in_set_dropD)

lemma distinct_chain_unlink: "distinct xs \<Longrightarrow> distinct (chain_unlink xs j)"
proof -
  assume d: "distinct xs"
  then have "distinct (take j xs @ drop j xs)" by simp
  then have "set (take j xs) \<inter> set (drop j xs) = {}" by (simp only: distinct_append)
  moreover have "set (drop (Suc j) xs) \<subseteq> set (drop j xs)"
    by (rule set_drop_subset_set_drop) simp
  ultimately have "set (take j xs) \<inter> set (drop (Suc j) xs) = {}" by blast
  with d show ?thesis by (simp add: chain_unlink_def)
qed

lemma chain_unlink_removes:
  "distinct xs \<Longrightarrow> j < length xs \<Longrightarrow> set (chain_unlink xs j) = set xs - {xs ! j}"
proof -
  assume d: "distinct xs" and j: "j < length xs"
  have xs: "xs = take j xs @ xs ! j # drop (Suc j) xs"
    using j by (simp add: id_take_nth_drop)
  from d have "distinct (take j xs @ xs ! j # drop (Suc j) xs)" using xs by simp
  then have "xs ! j \<notin> set (take j xs)" "xs ! j \<notin> set (drop (Suc j) xs)" by auto
  moreover have "set xs = set (take j xs) \<union> {xs ! j} \<union> set (drop (Suc j) xs)"
    by (subst xs) auto
  ultimately show ?thesis by (auto simp: chain_unlink_def)
qed

lemma same_keys_refl [simp]: "same_keys hp hp"
  by (simp add: same_keys_def)

lemma same_keys_trans: "same_keys hpa hpb \<Longrightarrow> same_keys hpb hpc \<Longrightarrow> same_keys hpa hpc"
  by (simp add: same_keys_def)

lemma chains_ok_heap: "chains_ok hp bits ch \<Longrightarrow> same_keys hp hp' \<Longrightarrow> chains_ok hp' bits ch"
  by (simp add: chains_ok_def same_keys_def)

lemma chains_ok_unlink:
  assumes "chains_ok hp bits ch"
  shows "chains_ok hp bits (ch(i := chain_unlink (ch i) j))"
  unfolding chains_ok_def
proof (intro allI)
  fix i'
  show "distinct ((ch(i := chain_unlink (ch i) j)) i')
      \<and> (\<forall>a\<in>set ((ch(i := chain_unlink (ch i) j)) i'). bucket_index bits (hash (hp a)) = i')
      \<and> (\<forall>a\<in>set ((ch(i := chain_unlink (ch i) j)) i').
            \<forall>b\<in>set ((ch(i := chain_unlink (ch i) j)) i').
              hash (hp a) = hash (hp b) \<and> key_data (hp a) = key_data (hp b) \<longrightarrow> a = b)"
  proof (cases "i' = i")
    case True
    from assms have d: "distinct (ch i)"
      and b: "\<forall>a\<in>set (ch i). bucket_index bits (hash (hp a)) = i"
      and u: "\<forall>a\<in>set (ch i). \<forall>b\<in>set (ch i).
                hash (hp a) = hash (hp b) \<and> key_data (hp a) = key_data (hp b) \<longrightarrow> a = b"
      by (simp_all add: chains_ok_def)
    have sub: "set (chain_unlink (ch i) j) \<subseteq> set (ch i)" by (rule set_chain_unlink)
    show ?thesis
      using True distinct_chain_unlink [OF d, of j] b u sub
      by (simp add: subset_iff)
  next
    case False
    with assms show ?thesis by (simp add: chains_ok_def)
  qed
qed

lemma chains_ok_find:
  assumes ok: "chains_ok hp bits ch" and a: "a \<in> set (ch i)"
  shows "bucket_index bits (hash (hp a)) = i
       \<and> chain_find hp (key_data (hp a)) (hash (hp a)) (ch i) < length (ch i)
       \<and> ch i ! chain_find hp (key_data (hp a)) (hash (hp a)) (ch i) = a"
proof -
  from ok a have b: "bucket_index bits (hash (hp a)) = i" by (simp add: chains_ok_def)
  from ok a have "\<forall>b \<in> set (ch i). hash (hp a) = hash (hp b) \<and> key_data (hp a) = key_data (hp b) \<longrightarrow> a = b"
    by (simp add: chains_ok_def)
  from chain_find_unique [OF a this] b show ?thesis by simp
qed

lemma chains_ok_only_bucket:
  assumes "chains_ok hp bits ch" and "a \<in> set (ch i)" and "a \<in> set (ch i')"
  shows "i' = i"
proof -
  from assms(1,2) have "bucket_index bits (hash (hp a)) = i" by (simp add: chains_ok_def)
  moreover from assms(1,3) have "bucket_index bits (hash (hp a)) = i'" by (simp add: chains_ok_def)
  ultimately show ?thesis by simp
qed

lemma table_entries_unlink:
  "table_entries (t\<lparr>list_ht := (list_ht t)(i := chain_unlink (list_ht t i) j), elems_ht := n\<rparr>)
     \<subseteq> table_entries t"
  using set_chain_unlink by (fastforce simp: table_entries_def split: if_splits)

lemma LRUHandleTable_Remove_cases:
  assumes "LRUHandleTable_Remove hp t k h = (res, t')"
  shows "t' = t \<or>
         (\<exists>i j. t' = t\<lparr>list_ht := (list_ht t)(i := chain_unlink (list_ht t i) j),
                        elems_ht := elems_ht t - 1\<rparr>)"
  using assms
  by (auto simp: LRUHandleTable_Remove_def FindPointer_def Let_def split: if_splits)

lemma LRUHandleTable_Remove_inv:
  assumes inv: "tbl_inv hp t" and r: "LRUHandleTable_Remove hp t k h = (res, t')"
  shows "tbl_inv hp t' \<and> table_entries t' \<subseteq> table_entries t
       \<and> length_bits_ht t' = length_bits_ht t"
proof -
  from LRUHandleTable_Remove_cases [OF r] show ?thesis
  proof
    assume "t' = t"
    with inv show ?thesis by simp
  next
    assume "\<exists>i j. t' = t\<lparr>list_ht := (list_ht t)(i := chain_unlink (list_ht t i) j),
                        elems_ht := elems_ht t - 1\<rparr>"
    then obtain i j where t': "t' = t\<lparr>list_ht := (list_ht t)(i := chain_unlink (list_ht t i) j),
                        elems_ht := elems_ht t - 1\<rparr>" by blast
    from inv have ok: "chains_ok hp (length_bits_ht t) (list_ht t)" by (simp add: tbl_inv_def)
    have "tbl_inv hp t'"
      using chains_ok_unlink [OF ok, of i j] by (simp add: tbl_inv_def t')
    moreover have "table_entries t' \<subseteq> table_entries t"
      unfolding t' by (rule table_entries_unlink)
    ultimately show ?thesis by (simp add: t')
  qed
qed

lemma LRUHandleTable_Remove_own:
  assumes inv: "tbl_inv hp t"
    and r: "LRUHandleTable_Remove hp t (key_data (hp a)) (hash (hp a)) = (res, t')"
  shows "a \<notin> table_entries t'"
proof (cases "a \<in> table_entries t")
  case True
  let ?i = "bucket_index (length_bits_ht t) (hash (hp a))"
  let ?j = "chain_find hp (key_data (hp a)) (hash (hp a)) (list_ht t ?i)"
  from inv have ok: "chains_ok hp (length_bits_ht t) (list_ht t)" by (simp add: tbl_inv_def)
  from True obtain i where ai: "a \<in> set (list_ht t i)" by (auto simp: table_entries_def)
  from chains_ok_find [OF ok ai]
  have i: "?i = i" and j: "?j < length (list_ht t ?i)" and f: "list_ht t ?i ! ?j = a"
    by simp_all
  from r j have t': "t' = t\<lparr>list_ht := (list_ht t)(?i := chain_unlink (list_ht t ?i) ?j),
                           elems_ht := elems_ht t - 1\<rparr>"
    by (auto simp: LRUHandleTable_Remove_def FindPointer_def deref_def Let_def)
  from ok have d: "distinct (list_ht t ?i)" by (simp add: chains_ok_def)
  have rm: "set (chain_unlink (list_ht t ?i) ?j) = set (list_ht t ?i) - {a}"
    using chain_unlink_removes [OF d j] f by simp
  have only: "\<And>i'. a \<in> set (list_ht t i') \<Longrightarrow> i' = ?i"
    using chains_ok_only_bucket [OF ok ai] i by simp
  show ?thesis
    using rm only by (auto simp: table_entries_def t' split: if_splits)
next
  case False
  with LRUHandleTable_Remove_inv [OF inv r] show ?thesis by auto
qed

lemma same_keys_upd_dca [simp]:
  "same_keys hp (upd hp a (\<lambda>e. e\<lparr>refs := rv, DCAstamp := st, indca := b\<rparr>))"
  by (simp add: same_keys_def upd_def)

lemma same_keys_upd_in_cache [simp]:
  "same_keys hp (upd hp a (\<lambda>e. e\<lparr>in_cache := b\<rparr>))"
  by (simp add: same_keys_def upd_def)

lemma CBHTable_Remove_own:
  assumes inv: "cbht_inv hp t" and mem: "a \<in> cbht_entries t"
    and sv: "stamp_valid cfg (DCAstamp (hp a))"
    and r: "CBHTable_Remove cfg hp t (key_data (hp a)) (hash (hp a)) False = (res, hp', t')"
  shows "res = Some a
       \<and> (\<exists>rv. hp' = upd hp a (\<lambda>e. e\<lparr>refs := rv, DCAstamp := -1, indca := False\<rparr>))
       \<and> cbht_entries t' = cbht_entries t - {a} \<and> cbht_inv hp' t'"
proof -
  let ?i = "bucket_index (length_bits_cbht t) (hash (hp a))"
  let ?j = "chain_find hp (key_data (hp a)) (hash (hp a)) (list_cbht t ?i)"
  from inv have ok: "chains_ok hp (length_bits_cbht t) (list_cbht t)" by (simp add: cbht_inv_def)
  from mem obtain i where ai: "a \<in> set (list_cbht t i)" by (auto simp: cbht_entries_def)
  from chains_ok_find [OF ok ai]
  have i: "?i = i" and j: "?j < length (list_cbht t ?i)" and f: "list_cbht t ?i ! ?j = a"
    by simp_all
  from r j f sv obtain rv pool where
    res: "res = Some a"
    and hp': "hp' = upd hp a (\<lambda>e. e\<lparr>refs := rv, DCAstamp := -1, indca := False\<rparr>)"
    and t': "t' = t\<lparr>DCA_ref_pool := pool,
                    list_cbht := (list_cbht t)(?i := chain_unlink (list_cbht t ?i) ?j),
                    elems_cbht := elems_cbht t - 1\<rparr>"
    by (auto simp: CBHTable_Remove_def CBHTable_FindPointer_def deref_def Let_def split_beta)
  from ok have d: "distinct (list_cbht t ?i)" by (simp add: chains_ok_def)
  have rm: "set (chain_unlink (list_cbht t ?i) ?j) = set (list_cbht t ?i) - {a}"
    using chain_unlink_removes [OF d j] f by simp
  have only: "\<And>i'. a \<in> set (list_cbht t i') \<Longrightarrow> i' = ?i"
    using chains_ok_only_bucket [OF ok ai] i by simp
  have e: "cbht_entries t' = cbht_entries t - {a}"
    using rm only by (auto simp: cbht_entries_def t' split: if_splits)
  have "chains_ok hp' (length_bits_cbht t) ((list_cbht t)(?i := chain_unlink (list_cbht t ?i) ?j))"
    by (rule chains_ok_heap [OF chains_ok_unlink [OF ok]]) (simp add: hp')
  then have inv': "cbht_inv hp' t'" by (simp add: cbht_inv_def t')
  from res hp' e inv' show ?thesis by blast
qed

lemma LRU_Remove_fields [simp]:
  "heap (LRU_Remove cfg s e) = heap s"
  "table (LRU_Remove cfg s e) = table s"
  "cbhtable (LRU_Remove cfg s e) = cbhtable s"
  "usage (LRU_Remove cfg s e) = usage s"
  "capacity (LRU_Remove cfg s e) = capacity s"
  "strict_capacity_limit (LRU_Remove cfg s e) = strict_capacity_limit s"
  "metadata_charge_policy (LRU_Remove cfg s e) = metadata_charge_policy s"
  "secondary_cache (LRU_Remove cfg s e) = secondary_cache s"
  "freed (LRU_Remove cfg s e) = freed s"
  "deallocated (LRU_Remove cfg s e) = deallocated s"
  "sec_inserted (LRU_Remove cfg s e) = sec_inserted s"
  "sec_lookups (LRU_Remove cfg s e) = sec_lookups s"
  "high_pri_pool_ratio (LRU_Remove cfg s e) = high_pri_pool_ratio s"
  "high_pri_pool_capacity (LRU_Remove cfg s e) = high_pri_pool_capacity s"
  by (simp_all add: LRU_Remove_def Let_def)

lemma total_charge_of_LRU_Remove [simp]:
  "total_charge_of cfg (LRU_Remove cfg s e) = total_charge_of cfg s"
  by (simp add: total_charge_of_def fun_eq_iff)

lemma remove_from_dca_props:
  assumes inv: "cbht_inv (heap s) (cbhtable s)"
    and ok: "indca (heap s old) \<longrightarrow>
               CBHTturnoff cfg \<noteq> 0 \<and> old \<in> cbht_entries (cbhtable s) \<and> stamp_valid cfg (DCAstamp (heap s old))"
  shows "\<exists>hp' t'. remove_from_dca cfg s old = s\<lparr>heap := hp', cbhtable := t'\<rparr>
           \<and> (\<forall>a. a \<noteq> old \<longrightarrow> hp' a = heap s a)
           \<and> same_keys (heap s) hp'
           \<and> charge (hp' old) = charge (heap s old)
           \<and> in_cache (hp' old) = in_cache (heap s old)
           \<and> \<not> indca (hp' old)
           \<and> cbht_inv hp' t'
           \<and> cbht_entries t' = (if indca (heap s old) then cbht_entries (cbhtable s) - {old}
                                else cbht_entries (cbhtable s))"
proof (cases "indca (heap s old)")
  case False
  then have "remove_from_dca cfg s old = s" by (simp add: remove_from_dca_def)
  then have "remove_from_dca cfg s old = s\<lparr>heap := heap s, cbhtable := cbhtable s\<rparr>" by simp
  with False inv show ?thesis by (intro exI [of _ "heap s"] exI [of _ "cbhtable s"]) simp
next
  case True
  with ok have t: "CBHTturnoff cfg \<noteq> 0" and mem: "old \<in> cbht_entries (cbhtable s)"
    and sv: "stamp_valid cfg (DCAstamp (heap s old))" by simp_all
  obtain res hp' t' where
    r: "CBHTable_Remove cfg (heap s) (cbhtable s) (key_data (heap s old)) (hash (heap s old)) False
          = (res, hp', t')"
    by (cases "CBHTable_Remove cfg (heap s) (cbhtable s) (key_data (heap s old)) (hash (heap s old)) False")
  from CBHTable_Remove_own [OF inv mem sv r] obtain rv where
    hp': "hp' = upd (heap s) old (\<lambda>e. e\<lparr>refs := rv, DCAstamp := -1, indca := False\<rparr>)"
    and e: "cbht_entries t' = cbht_entries (cbhtable s) - {old}" and inv': "cbht_inv hp' t'"
    by blast
  have eq: "remove_from_dca cfg s old = s\<lparr>heap := hp', cbhtable := t'\<rparr>"
    using True t r by (simp add: remove_from_dca_def Remove_default_dontforce_def)
  show ?thesis
    using eq e inv' True
    by (intro exI [of _ hp'] exI [of _ t']) (simp add: hp' upd_def same_keys_def)
qed

lemma total_charge_of_heap:
  "metadata_charge_policy s' = metadata_charge_policy s \<Longrightarrow> same_keys (heap s) (heap s')
   \<Longrightarrow> charge (heap s' x) = charge (heap s x)
   \<Longrightarrow> total_charge_of cfg s' x = total_charge_of cfg s x"
  by (simp add: total_charge_of_def CalcTotalCharge_def same_keys_def)

lemma evict_one_props:
  assumes inv: "evict_inv cfg s" and l: "lru s = old # rest"
  shows "lru (evict_one cfg s old) = rest
       \<and> usage (evict_one cfg s old) = usage s - total_charge_of cfg s old
       \<and> capacity (evict_one cfg s old) = capacity s
       \<and> metadata_charge_policy (evict_one cfg s old) = metadata_charge_policy s
       \<and> (\<forall>a. a \<noteq> old \<longrightarrow> heap (evict_one cfg s old) a = heap s a)
       \<and> same_keys (heap s) (heap (evict_one cfg s old))
       \<and> charge (heap (evict_one cfg s old) old) = charge (heap s old)
       \<and> \<not> in_cache (heap (evict_one cfg s old) old)
       \<and> \<not> indca (heap (evict_one cfg s old) old)
       \<and> old \<notin> table_entries (table (evict_one cfg s old))
       \<and> table_entries (table (evict_one cfg s old)) \<subseteq> table_entries (table s)
       \<and> cbht_entries (cbhtable (evict_one cfg s old)) \<subseteq> cbht_entries (cbhtable s)
       \<and> (indca (heap s old) \<longrightarrow> old \<notin> cbht_entries (cbhtable (evict_one cfg s old)))
       \<and> evict_inv cfg (evict_one cfg s old)"
proof -
  let ?s1 = "LRU_Remove cfg s old"
  from inv l have d: "distinct (old # rest)" by (simp add: evict_inv_def)
  have l1: "lru ?s1 = rest" using l by (simp add: lru_LRU_Remove)
  from inv have ci: "cbht_inv (heap ?s1) (cbhtable ?s1)" by (simp add: evict_inv_def)
  from inv l have dk: "indca (heap ?s1 old) \<longrightarrow>
      CBHTturnoff cfg \<noteq> 0 \<and> old \<in> cbht_entries (cbhtable ?s1) \<and> stamp_valid cfg (DCAstamp (heap ?s1 old))"
    by (simp add: evict_inv_def lru_dca_ok_def)
  from remove_from_dca_props [OF ci dk] obtain hp2 t2 where
    s2: "remove_from_dca cfg ?s1 old = ?s1\<lparr>heap := hp2, cbhtable := t2\<rparr>"
    and fr: "\<forall>a. a \<noteq> old \<longrightarrow> hp2 a = heap s a"
    and sk: "same_keys (heap s) hp2"
    and ch: "charge (hp2 old) = charge (heap s old)"
    and nd: "\<not> indca (hp2 old)"
    and ci2: "cbht_inv hp2 t2"
    and ce: "cbht_entries t2 = (if indca (heap s old) then cbht_entries (cbhtable s) - {old}
                                else cbht_entries (cbhtable s))"
    by auto
  from inv have "tbl_inv (heap s) (table s)" by (simp add: evict_inv_def)
  with sk have ti2: "tbl_inv hp2 (table s)" by (auto simp: tbl_inv_def intro: chains_ok_heap)
  obtain res tbl where
    r: "LRUHandleTable_Remove hp2 (table s) (key_data (hp2 old)) (hash (hp2 old)) = (res, tbl)"
    by (cases "LRUHandleTable_Remove hp2 (table s) (key_data (hp2 old)) (hash (hp2 old))")
  from LRUHandleTable_Remove_inv [OF ti2 r] LRUHandleTable_Remove_own [OF ti2 r]
  have ti: "tbl_inv hp2 tbl" and te: "table_entries tbl \<subseteq> table_entries (table s)"
    and own: "old \<notin> table_entries tbl" by simp_all
  let ?hp4 = "upd hp2 old (\<lambda>h. h\<lparr>in_cache := False\<rparr>)"
  have eq: "evict_one cfg s old =
      ?s1\<lparr>cbhtable := t2, table := tbl, heap := ?hp4,
           usage := usage s - total_charge_of cfg (?s1\<lparr>cbhtable := t2, table := tbl, heap := ?hp4\<rparr>) old\<rparr>"
    using s2 r by (simp add: evict_one_def Let_def)
  have sk4: "same_keys (heap s) ?hp4"
    using sk by (simp add: same_keys_def upd_def)
  have tc: "total_charge_of cfg (?s1\<lparr>cbhtable := t2, table := tbl, heap := ?hp4\<rparr>) old
              = total_charge_of cfg s old"
    by (rule total_charge_of_heap) (use sk4 ch in \<open>simp_all add: upd_def\<close>)
  have inv': "evict_inv cfg (evict_one cfg s old)"
    unfolding evict_inv_def
  proof (intro conjI)
    show "distinct (lru (evict_one cfg s old))" using d l1 by (simp add: eq)
    have "same_keys hp2 ?hp4" by simp
    with ti show "tbl_inv (heap (evict_one cfg s old)) (table (evict_one cfg s old))"
      by (auto simp: eq tbl_inv_def intro: chains_ok_heap)
    from ci2 \<open>same_keys hp2 ?hp4\<close>
    show "cbht_inv (heap (evict_one cfg s old)) (cbhtable (evict_one cfg s old))"
      by (auto simp: eq cbht_inv_def intro: chains_ok_heap)
    show "lru_dca_ok cfg (evict_one cfg s old)"
      unfolding lru_dca_ok_def
    proof (intro ballI impI)
      fix x
      assume x: "x \<in> set (lru (evict_one cfg s old))" and ix: "indca (heap (evict_one cfg s old) x)"
      from x d l1 have xo: "x \<noteq> old" and xr: "x \<in> set (lru s)" by (auto simp: eq l)
      from xo fr have hx: "heap (evict_one cfg s old) x = heap s x" by (simp add: eq upd_def)
      from inv xr ix hx have "CBHTturnoff cfg \<noteq> 0 \<and> x \<in> cbht_entries (cbhtable s)
          \<and> stamp_valid cfg (DCAstamp (heap s x))"
        by (simp add: evict_inv_def lru_dca_ok_def)
      with xo ce hx show "CBHTturnoff cfg \<noteq> 0 \<and> x \<in> cbht_entries (cbhtable (evict_one cfg s old))
          \<and> stamp_valid cfg (DCAstamp (heap (evict_one cfg s old) x))"
        by (simp add: eq)
    qed
  qed
  show ?thesis
    using l1 fr sk4 ch nd own te ce inv' tc
    by (simp add: eq upd_def)
qed

lemma evict_frame_total_charge:
  "evict_frame cfg s s' \<Longrightarrow> total_charge_of cfg s' = total_charge_of cfg s"
  by (auto simp: evict_frame_def fun_eq_iff intro: total_charge_of_heap)

lemma evict_post_step:
  assumes inv: "evict_inv cfg s" and l: "lru s = old # rest"
    and ih: "evict_post cfg c (evict_one cfg s old) (deleted @ [old]) n1 s' deleted'"
  shows "evict_post cfg c s deleted (Suc n1) s' deleted'"
proof -
  let ?s1 = "evict_one cfg s old"
  note p = evict_one_props [OF inv l]
  from p have l1: "lru ?s1 = rest" by simp
  from p have us1: "usage ?s1 = usage s - total_charge_of cfg s old" by simp
  from p have hp1: "\<And>a. a \<noteq> old \<Longrightarrow> heap ?s1 a = heap s a" by simp
  from p have nc1: "\<not> in_cache (heap ?s1 old)" and ni1: "\<not> indca (heap ?s1 old)" by simp_all
  from p have nt1: "old \<notin> table_entries (table ?s1)" by simp
  from p have te1: "table_entries (table ?s1) \<subseteq> table_entries (table s)" by simp
  from p have ce1: "cbht_entries (cbhtable ?s1) \<subseteq> cbht_entries (cbhtable s)" by simp
  from p have nb1: "indca (heap s old) \<longrightarrow> old \<notin> cbht_entries (cbhtable ?s1)" by simp
  from p have sk1: "same_keys (heap s) (heap ?s1)" by simp
  from p have cp1: "capacity ?s1 = capacity s" "metadata_charge_policy ?s1 = metadata_charge_policy s"
    by simp_all
  from p have ch1: "charge (heap ?s1 old) = charge (heap s old)" by simp
  from p have inv1: "evict_inv cfg ?s1" by simp
  have chg: "charge (heap ?s1 a) = charge (heap s a)" for a
    using ch1 hp1 by (cases "a = old") simp_all
  have fr1: "evict_frame cfg s ?s1"
    using cp1 sk1 chg te1 ce1 inv1 by (simp add: evict_frame_def)
  have tc1: "total_charge_of cfg ?s1 = total_charge_of cfg s"
    by (rule evict_frame_total_charge [OF fr1])
  from inv l have d: "distinct (old # rest)" by (simp add: evict_inv_def)
  note ih' = ih [unfolded evict_post_def l1]
  from ih' have c1: "\<not> usage s' + c > capacity s' \<or> lru s' = []" by blast
  from ih' have c2: "n1 \<le> length rest" by blast
  from ih' have c3: "deleted' = (deleted @ [old]) @ take n1 rest" by blast
  from ih' have c4: "lru s' = drop n1 rest" by blast
  from ih' have c5: "usage s' = usage ?s1 - sum_list (map (total_charge_of cfg ?s1) (take n1 rest))"
    by blast
  from ih' have c6: "\<And>a. a \<notin> set (take n1 rest) \<Longrightarrow> heap s' a = heap ?s1 a" by blast
  from ih' have c7: "\<And>x. x \<in> set (take n1 rest) \<Longrightarrow> evicted_ok cfg ?s1 s' x" by blast
  from ih' have fr': "evict_frame cfg ?s1 s'" by blast
  from fr' have "same_keys (heap ?s1) (heap s')" by (simp add: evict_frame_def)
  with sk1 have sk: "same_keys (heap s) (heap s')" by (simp add: same_keys_def)
  have chg': "charge (heap s' a) = charge (heap s a)" for a
    using chg [of a] fr' by (simp add: evict_frame_def)
  have fr: "evict_frame cfg s s'"
    unfolding evict_frame_def
  proof (intro conjI)
    show "capacity s' = capacity s" using fr' cp1 by (simp add: evict_frame_def)
    show "metadata_charge_policy s' = metadata_charge_policy s"
      using fr' cp1 by (simp add: evict_frame_def)
    show "same_keys (heap s) (heap s')" by (rule sk)
    show "\<forall>a. charge (heap s' a) = charge (heap s a)" using chg' by blast
    show "table_entries (table s') \<subseteq> table_entries (table s)"
      using fr' te1 unfolding evict_frame_def by blast
    show "cbht_entries (cbhtable s') \<subseteq> cbht_entries (cbhtable s)"
      using fr' ce1 unfolding evict_frame_def by blast
    show "evict_inv cfg s'" using fr' by (simp add: evict_frame_def)
  qed
  have notin: "old \<notin> set (take n1 rest)" using d by (auto dest: in_set_takeD)
  have old_ok: "evicted_ok cfg s s' old"
  proof -
    from c4 d have a: "old \<notin> set (lru s')" by (auto dest: in_set_dropD)
    from fr' nt1 have b: "old \<notin> table_entries (table s')" unfolding evict_frame_def by blast
    from c6 [OF notin] have h: "heap s' old = heap ?s1 old" .
    with nc1 ni1 have c: "\<not> in_cache (heap s' old)" "\<not> indca (heap s' old)" by simp_all
    from fr' nb1 have dd: "indca (heap s old) \<longrightarrow> old \<notin> cbht_entries (cbhtable s')"
      unfolding evict_frame_def by blast
    from a b c dd show ?thesis by (simp add: evicted_ok_def)
  qed
  have rest_ok: "evicted_ok cfg s s' x" if x: "x \<in> set (take n1 rest)" for x
  proof -
    from x notin have "x \<noteq> old" by auto
    then have "heap ?s1 x = heap s x" by (rule hp1)
    with c7 [OF x] show ?thesis by (simp add: evicted_ok_def)
  qed
  have us: "usage s' = usage s - sum_list (map (total_charge_of cfg s) (take (Suc n1) (lru s)))"
    using c5 us1 by (simp add: tc1 l)
  have hp: "heap s' a = heap s a" if "a \<notin> set (take (Suc n1) (lru s))" for a
  proof -
    from that have "a \<noteq> old" "a \<notin> set (take n1 rest)" by (simp_all add: l)
    with c6 hp1 show ?thesis by simp
  qed
  have all_ok: "\<forall>x \<in> set (take (Suc n1) (lru s)). evicted_ok cfg s s' x"
    using old_ok rest_ok by (simp add: l)
  have n: "Suc n1 \<le> length (lru s)" using c2 by (simp add: l)
  have dl: "deleted' = deleted @ take (Suc n1) (lru s)" using c3 by (simp add: l)
  have dr: "lru s' = drop (Suc n1) (lru s)" using c4 by (simp add: l)
  from hp have hp': "\<forall>a. a \<notin> set (take (Suc n1) (lru s)) \<longrightarrow> heap s' a = heap s a" by blast
  show ?thesis
    unfolding evict_post_def
    by (intro conjI) (fact c1 n dl dr us hp' all_ok fr)+
qed

lemma EvictFromLRU_gen:
  "evict_inv cfg s \<Longrightarrow>
   \<exists>n. evict_post cfg c s deleted n (fst (EvictFromLRU cfg c s deleted)) (snd (EvictFromLRU cfg c s deleted))"
proof (induction cfg c s deleted rule: EvictFromLRU.induct)
  case (1 cfg c s deleted)
  show ?case
  proof (cases "usage s + c > capacity s \<and> lru s \<noteq> []")
    case False
    then have "(usage s + c > capacity s \<and> lru s \<noteq> []) = False" by simp
    then have e: "EvictFromLRU cfg c s deleted = (s, deleted)"
      by (subst EvictFromLRU.simps) (simp only: if_False)
    have "evict_frame cfg s s" using "1.prems" by (simp add: evict_frame_def)
    with False have "evict_post cfg c s deleted 0 s deleted"
      unfolding evict_post_def by simp
    with e show ?thesis by (intro exI [of _ 0]) simp
  next
    case True
    then obtain old rest where l: "lru s = old # rest" by (cases "lru s") auto
    then have hd: "hd (lru s) = old" by simp
    let ?s1 = "evict_one cfg s old"
    from evict_one_props [OF "1.prems" l] have inv1: "evict_inv cfg ?s1" by simp
    have e: "EvictFromLRU cfg c s deleted = EvictFromLRU cfg c ?s1 (deleted @ [old])"
      using True l by (subst EvictFromLRU.simps) simp
    from "1.IH" [OF True, unfolded hd, OF inv1] obtain n1 where
      "evict_post cfg c ?s1 (deleted @ [old]) n1
         (fst (EvictFromLRU cfg c ?s1 (deleted @ [old]))) (snd (EvictFromLRU cfg c ?s1 (deleted @ [old])))"
      by blast
    from evict_post_step [OF "1.prems" l this] show ?thesis
      unfolding e by blast
  qed
qed

lemma unat_sum_list:
  fixes xs :: "size_t list"
  shows "sum_list (map unat xs) < 2 ^ 64 \<Longrightarrow> unat (sum_list xs) = sum_list (map unat xs)"
proof (induction xs)
  case Nil
  show ?case by simp
next
  case (Cons x xs)
  then have ih: "unat (sum_list xs) = sum_list (map unat xs)" by simp
  from Cons.prems have "unat x + unat (sum_list xs) < 2 ^ LENGTH(64)" by (simp add: ih)
  then have "unat (x + sum_list xs) = unat x + unat (sum_list xs)"
    by (simp only: unat_add_lem)
  with ih show ?case by simp
qed

lemma unat_minus_sum_list:
  fixes u :: size_t
  assumes "sum_list (map (\<lambda>x. unat (f x)) xs) \<le> unat u"
  shows "unat (u - sum_list (map f xs)) = unat u - sum_list (map (\<lambda>x. unat (f x)) xs)"
proof -
  have "unat u < 2 ^ 64" using unsigned_less [of u, where 'a = nat] by simp
  with assms have "sum_list (map unat (map f xs)) < 2 ^ 64" by (simp add: comp_def)
  then have e: "unat (sum_list (map f xs)) = sum_list (map (\<lambda>x. unat (f x)) xs)"
    using unat_sum_list [of "map f xs"] by (simp add: comp_def)
  with assms have "sum_list (map f xs) \<le> u" by (simp add: word_le_nat_alt)
  then show ?thesis by (simp add: unat_sub e)
qed

lemma sum_list_take_le:
  fixes g :: "'a \<Rightarrow> nat"
  shows "sum_list (map g (take n xs)) \<le> sum_list (map g xs)"
proof -
  have "sum_list (map g xs) = sum_list (map g (take n xs)) + sum_list (map g (drop n xs))"
    by (metis append_take_drop_id map_append sum_list_append)
  then show ?thesis by simp
qed

text \<open>
  C4. In a shard whose tables and LRU list are in order, \<open>EvictFromLRU(c)\<close> returns
  with \<open>usage + c \<le> capacity\<close> in \<open>size_t\<close> arithmetic, the sum taken modulo
  \<open>2 ^ 64\<close> as the loop tests it, or with an empty LRU list. When \<open>usage + c\<close> does
  not overflow and the usage covers the charges of the handles on the list (what the
  source asserts before it subtracts a charge), this is \<open>usage + c \<le> capacity\<close> over
  the integers. It evicts a prefix of the list, from \<open>lru_.next\<close> on: these handles are
  appended to the returned list in order, their charges are subtracted from the usage,
  and each of them is off the LRU list, out of the primary table, not in cache, and out
  of the hot index if its \<open>indca\<close> flag was set.
\<close>

theorem EvictFromLRU_evicts:
  assumes "evict_inv cfg s"
  shows "case EvictFromLRU cfg c s deleted of
           (s', deleted') \<Rightarrow>
             (usage s' + c \<le> capacity s' \<or> lru s' = [])
           \<and> (unat (usage s) + unat c < 2 ^ 64
                \<and> sum_list (map (\<lambda>x. unat (total_charge_of cfg s x)) (lru s)) \<le> unat (usage s)
              \<longrightarrow> unat (usage s') + unat c \<le> unat (capacity s') \<or> lru s' = [])
           \<and> (\<exists>n \<le> length (lru s).
                  deleted' = deleted @ take n (lru s) \<and> lru s' = drop n (lru s)
                \<and> usage s' = usage s - sum_list (map (total_charge_of cfg s) (take n (lru s)))
                \<and> (\<forall>old \<in> set (take n (lru s)). evicted_ok cfg s s' old))"
proof -
  define s' where "s' = fst (EvictFromLRU cfg c s deleted)"
  define deleted' where "deleted' = snd (EvictFromLRU cfg c s deleted)"
  from EvictFromLRU_gen [OF assms, of c deleted] obtain n where
    p: "evict_post cfg c s deleted n s' deleted'"
    unfolding s'_def deleted'_def by blast
  from p have q: "(usage s' + c \<le> capacity s' \<or> lru s' = [])
      \<and> n \<le> length (lru s) \<and> deleted' = deleted @ take n (lru s)
      \<and> lru s' = drop n (lru s)
      \<and> usage s' = usage s - sum_list (map (total_charge_of cfg s) (take n (lru s)))
      \<and> (\<forall>old \<in> set (take n (lru s)). evicted_ok cfg s s' old)"
    unfolding evict_post_def not_less by blast
  from q have g: "usage s' + c \<le> capacity s' \<or> lru s' = []" by blast
  from q have n: "n \<le> length (lru s)" by blast
  from q have d: "deleted' = deleted @ take n (lru s)" by blast
  from q have l: "lru s' = drop n (lru s)" by blast
  from q have u: "usage s' = usage s - sum_list (map (total_charge_of cfg s) (take n (lru s)))" by blast
  from q have o: "\<forall>old \<in> set (take n (lru s)). evicted_ok cfg s s' old" by blast
  have i: "unat (usage s') + unat c \<le> unat (capacity s') \<or> lru s' = []"
    if h1: "unat (usage s) + unat c < 2 ^ 64"
      and h2: "sum_list (map (\<lambda>x. unat (total_charge_of cfg s x)) (lru s)) \<le> unat (usage s)"
  proof (cases "lru s' = []")
    case True
    then show ?thesis by simp
  next
    case False
    with g have w: "usage s' + c \<le> capacity s'" by simp
    have "sum_list (map (\<lambda>x. unat (total_charge_of cfg s x)) (take n (lru s))) \<le> unat (usage s)"
      using sum_list_take_le [of "\<lambda>x. unat (total_charge_of cfg s x)" n "lru s"] h2 by simp
    from unat_minus_sum_list [OF this] have "unat (usage s') \<le> unat (usage s)" by (simp add: u)
    with h1 have "unat (usage s') + unat c < 2 ^ LENGTH(64)" by simp
    then have "unat (usage s' + c) = unat (usage s') + unat c" by (simp only: unat_add_lem)
    with w show ?thesis by (simp add: word_le_nat_alt)
  qed
  have e: "EvictFromLRU cfg c s deleted = (s', deleted')" by (simp add: s'_def deleted'_def)
  show ?thesis
    unfolding e prod.case
    using g i n d l u o by blast
qed

lemma evict_inv_shard_lru: "evict_inv cfg0 shard_lru"
  by (auto simp: evict_inv_def tbl_inv_def cbht_inv_def chains_ok_def lru_dca_ok_def
      cbht_entries_def stamp_valid_def bucket_index_def
      shard_lru_def ex_defs LRUCacheShard_new_def LRUHandleTable_new_def CBHTable_new_def)

theorem EvictFromLRU_evicts_witness:
  "evict_inv cfg0 shard_lru
   \<and> unat (usage shard_lru) + unat (40 :: size_t) < 2 ^ 64
   \<and> sum_list (map (\<lambda>x. unat (total_charge_of cfg0 shard_lru x)) (lru shard_lru)) \<le> unat (usage shard_lru)
   \<and> (case EvictFromLRU cfg0 40 shard_lru [] of
        (s', deleted') \<Rightarrow>
          deleted' = [7] \<and> lru s' = [8] \<and> usage s' = 40
          \<and> unat (usage s') + unat (40 :: size_t) \<le> unat (capacity s')
          \<and> \<not> in_cache (heap s' 7) \<and> \<not> indca (heap s' 7)
          \<and> list_ht (table s') 0 = [8] \<and> list_cbht (cbhtable s') 0 = [])"
proof -
  have two: "\<And>f :: nat \<Rightarrow> int. (\<Sum>i = 0 ..< 2. f i) = f 0 + f 1" by (simp add: numeral_2_eq_2)
  have h: "unat (usage shard_lru) + unat (40 :: size_t) < 2 ^ 64"
    "sum_list (map (\<lambda>x. unat (total_charge_of cfg0 shard_lru x)) (lru shard_lru)) \<le> unat (usage shard_lru)"
    by (simp_all add: total_charge_of_def CalcTotalCharge_def shard_lru_def ex_defs LRUCacheShard_new_def)
  have "case EvictFromLRU cfg0 40 shard_lru [] of
        (s', deleted') \<Rightarrow>
          deleted' = [7] \<and> lru s' = [8] \<and> usage s' = 40
          \<and> unat (usage s') + unat (40 :: size_t) \<le> unat (capacity s')
          \<and> \<not> in_cache (heap s' 7) \<and> \<not> indca (heap s' 7)
          \<and> list_ht (table s') 0 = [8] \<and> list_cbht (cbhtable s') 0 = []"
    using EvictFromLRU_evicts [OF evict_inv_shard_lru, of 40 "[]"] h
    by (simp add: EvictFromLRU.simps evict_one_def LRU_Remove_def remove_from_dca_def
        Remove_default_dontforce_def CBHTable_Remove_def CBHTable_FindPointer_def
        LRUHandleTable_Remove_def FindPointer_def bucket_index_def deref_def chain_unlink_def
        stamp_valid_def tally_loop_eq total_charge_of_def CalcTotalCharge_def upd_def Let_def two
        shard_lru_def ex_defs LRUCacheShard_new_def LRUHandleTable_new_def CBHTable_new_def)
  with evict_inv_shard_lru h show ?thesis by simp
qed

text \<open>
  A charge close to \<open>2 ^ 64\<close>: the sum \<open>usage + c\<close> of the loop test wraps to 30, the
  loop does not run, and \<open>EvictFromLRU\<close> returns with a list that is not empty and
  with usage plus charge above the capacity.
\<close>

theorem EvictFromLRU_wrapped_charge:
  "evict_inv cfg0 shard_lru
   \<and> EvictFromLRU cfg0 (- 50) shard_lru [] = (shard_lru, [])
   \<and> lru shard_lru = [7, 8]
   \<and> usage shard_lru + (- 50) = 30
   \<and> uint (usage shard_lru) + uint (- 50 :: size_t) > uint (capacity shard_lru)"
proof -
  have a: "usage shard_lru = 80" "capacity shard_lru = 100" "lru shard_lru = [7, 8]"
    by (simp_all add: shard_lru_def ex_defs LRUCacheShard_new_def)
  have b: "EvictFromLRU cfg0 (- 50) shard_lru [] = (shard_lru, [])"
    by (subst EvictFromLRU.simps) (simp add: a)
  have c: "uint (- 50 :: size_t) = 2 ^ 64 - 50" by simp
  from evict_inv_shard_lru a b c show ?thesis by simp
qed

subsection \<open>Insert when the cache is full\<close>

lemma CBHTable_Remove_entries:
  "cbht_entries (snd (snd (CBHTable_Remove cfg hp t k h df))) \<subseteq> cbht_entries t"
  using set_chain_unlink
  by (fastforce simp: CBHTable_Remove_def Let_def split_beta cbht_entries_def
        split: option.splits if_splits)

lemma LRUHandleTable_Remove_entries:
  "table_entries (snd (LRUHandleTable_Remove hp t k h)) \<subseteq> table_entries t"
  using LRUHandleTable_Remove_cases [of hp t k h "fst (LRUHandleTable_Remove hp t k h)"
           "snd (LRUHandleTable_Remove hp t k h)"]
        table_entries_unlink [where t = t]
  by (auto simp: subset_iff)

lemma remove_from_dca_fields [simp]:
  "table (remove_from_dca cfg s old) = table s"
  "usage (remove_from_dca cfg s old) = usage s"
  "capacity (remove_from_dca cfg s old) = capacity s"
  "strict_capacity_limit (remove_from_dca cfg s old) = strict_capacity_limit s"
  "metadata_charge_policy (remove_from_dca cfg s old) = metadata_charge_policy s"
  "secondary_cache (remove_from_dca cfg s old) = secondary_cache s"
  "freed (remove_from_dca cfg s old) = freed s"
  "deallocated (remove_from_dca cfg s old) = deallocated s"
  "sec_inserted (remove_from_dca cfg s old) = sec_inserted s"
  "sec_lookups (remove_from_dca cfg s old) = sec_lookups s"
  by (simp_all add: remove_from_dca_def split: prod.splits)

lemma remove_from_dca_entries:
  "cbht_entries (cbhtable (remove_from_dca cfg s old)) \<subseteq> cbht_entries (cbhtable s)"
  using CBHTable_Remove_entries
  by (simp add: remove_from_dca_def split_beta)

lemma evict_one_fields [simp]:
  "capacity (evict_one cfg s old) = capacity s"
  "strict_capacity_limit (evict_one cfg s old) = strict_capacity_limit s"
  "metadata_charge_policy (evict_one cfg s old) = metadata_charge_policy s"
  "secondary_cache (evict_one cfg s old) = secondary_cache s"
  "freed (evict_one cfg s old) = freed s"
  "deallocated (evict_one cfg s old) = deallocated s"
  "sec_inserted (evict_one cfg s old) = sec_inserted s"
  "sec_lookups (evict_one cfg s old) = sec_lookups s"
  by (simp_all add: evict_one_def Let_def split: prod.splits)

lemma evict_one_entries:
  "set (lru (evict_one cfg s old)) \<subseteq> set (lru s)
   \<and> table_entries (table (evict_one cfg s old)) \<subseteq> table_entries (table s)
   \<and> cbht_entries (cbhtable (evict_one cfg s old)) \<subseteq> cbht_entries (cbhtable s)"
proof -
  have a: "set (lru (evict_one cfg s old)) \<subseteq> set (lru s)"
    by (simp add: lru_evict_one lru_LRU_Remove set_remove1_subset)
  have b: "table_entries (table (evict_one cfg s old)) \<subseteq> table_entries (table s)"
    using LRUHandleTable_Remove_entries [of _ "table s"]
    by (simp add: evict_one_def Let_def split_beta)
  have c: "cbht_entries (cbhtable (evict_one cfg s old)) \<subseteq> cbht_entries (cbhtable s)"
    using remove_from_dca_entries [of cfg "LRU_Remove cfg s old" old]
    by (simp add: evict_one_def Let_def split_beta)
  from a b c show ?thesis by simp
qed

lemma EvictFromLRU_frame:
  "capacity (fst (EvictFromLRU cfg c s d)) = capacity s
   \<and> strict_capacity_limit (fst (EvictFromLRU cfg c s d)) = strict_capacity_limit s
   \<and> metadata_charge_policy (fst (EvictFromLRU cfg c s d)) = metadata_charge_policy s
   \<and> secondary_cache (fst (EvictFromLRU cfg c s d)) = secondary_cache s
   \<and> freed (fst (EvictFromLRU cfg c s d)) = freed s
   \<and> deallocated (fst (EvictFromLRU cfg c s d)) = deallocated s
   \<and> sec_inserted (fst (EvictFromLRU cfg c s d)) = sec_inserted s
   \<and> sec_lookups (fst (EvictFromLRU cfg c s d)) = sec_lookups s
   \<and> set (lru (fst (EvictFromLRU cfg c s d))) \<subseteq> set (lru s)
   \<and> table_entries (table (fst (EvictFromLRU cfg c s d))) \<subseteq> table_entries (table s)
   \<and> cbht_entries (cbhtable (fst (EvictFromLRU cfg c s d))) \<subseteq> cbht_entries (cbhtable s)"
proof (induction cfg c s d rule: EvictFromLRU.induct)
  case (1 cfg c s deleted)
  show ?case
  proof (cases "usage s + c > capacity s \<and> lru s \<noteq> []")
    case False
    then have "(usage s + c > capacity s \<and> lru s \<noteq> []) = False" by simp
    then have "EvictFromLRU cfg c s deleted = (s, deleted)"
      by (subst EvictFromLRU.simps) (simp only: if_False)
    then show ?thesis by simp
  next
    case True
    have e: "EvictFromLRU cfg c s deleted
               = EvictFromLRU cfg c (evict_one cfg s (hd (lru s))) (deleted @ [hd (lru s)])"
      using True by (subst EvictFromLRU.simps) simp
    from "1.IH" [OF True] evict_one_entries [of cfg s "hd (lru s)"]
    show ?thesis unfolding e by (simp add: subset_iff)
  qed
qed

lemma free_entries_fields:
  "freed (free_entries s es) = freed s @ es
   \<and> heap (free_entries s es) = heap s \<and> table (free_entries s es) = table s
   \<and> cbhtable (free_entries s es) = cbhtable s \<and> lru (free_entries s es) = lru s
   \<and> lru_low_pri (free_entries s es) = lru_low_pri s
   \<and> usage (free_entries s es) = usage s \<and> capacity (free_entries s es) = capacity s
   \<and> lru_usage (free_entries s es) = lru_usage s
   \<and> high_pri_pool_usage (free_entries s es) = high_pri_pool_usage s
   \<and> high_pri_pool_capacity (free_entries s es) = high_pri_pool_capacity s
   \<and> high_pri_pool_ratio (free_entries s es) = high_pri_pool_ratio s
   \<and> metadata_charge_policy (free_entries s es) = metadata_charge_policy s
   \<and> strict_capacity_limit (free_entries s es) = strict_capacity_limit s
   \<and> secondary_cache (free_entries s es) = secondary_cache s
   \<and> deallocated (free_entries s es) = deallocated s
   \<and> sec_lookups (free_entries s es) = sec_lookups s"
  unfolding free_entries_def
  by (induction es arbitrary: s) (simp_all add: Free_def)




lemma fresh_shard_lru: "fresh shard_lru 9 \<and> fresh shard_strict 9"
  by (simp add: fresh_def table_entries_def cbht_entries_def shard_strict_def
      shard_lru_def ex_defs LRUCacheShard_new_def LRUHandleTable_new_def CBHTable_new_def)



subsection \<open>The paths of Lookup\<close>

lemma overwrite_old_sec_lookups:
  "sec_lookups (fst (overwrite_old cfg mytid s e old lrl)) = sec_lookups s"
  by (simp add: overwrite_old_def Let_def split_beta)

lemma InsertItem_with_handle:
  assumes "handle \<noteq> None"
  shows "\<exists>st hdl s'. InsertItem cfg mytid s e handle f = Some (st, hdl, s')
           \<and> sec_lookups s' = sec_lookups s"
proof -
  from assms obtain y where y: "handle = Some y" by auto
  have l: "sec_lookups (fst (EvictFromLRU cfg (total_charge_of cfg s e) s [])) = sec_lookups s"
    using EvictFromLRU_frame [of cfg "total_charge_of cfg s e" s "[]"] by simp
  show ?thesis
    unfolding y
    by (simp add: InsertItem_def Let_def split_beta free_entries_fields overwrite_old_sec_lookups l
        split: option.splits)
qed

lemma Promote_returns:
  assumes "sec_handle (heap s e) \<noteq> None"
  shows "\<exists>s'. Promote cfg mytid s e = Some s' \<and> sec_lookups s' = sec_lookups s"
proof -
  from assms obtain sh where sh: "sec_handle (heap s e) = Some sh" by auto
  define s1 where "s1 = s\<lparr>heap := upd (heap s) e
                      (\<lambda>x. x\<lparr>is_pending := False, in_cache := True, is_promoted := True,
                             value_ptr := sec_Value sh, charge := sec_Size sh\<rparr>)\<rparr>"
  from InsertItem_with_handle [of "Some (Some e)" cfg mytid s1 e False]
  obtain st hdl s' where i: "InsertItem cfg mytid s1 e (Some (Some e)) False = Some (st, hdl, s')"
    and l: "sec_lookups s' = sec_lookups s1" by auto
  have "sec_lookups s1 = sec_lookups s" by (simp add: s1_def)
  with i l show ?thesis
    by (simp add: Promote_def sh Let_def s1_def [symmetric])
qed

lemma secondary_path_returns:
  "\<exists>r s'. secondary_path cfg mytid s k h helper priority wait e mem = Some (r, s')
     \<and> (if secondary_cache s \<noteq> None \<and> (case helper of None \<Rightarrow> False | Some hl \<Rightarrow> saveto_cb hl)
        then sec_lookups s' = sec_lookups s @ [k]
        else r = None \<and> s' = s)"
proof (cases "secondary_cache s")
  case None
  then show ?thesis by (simp add: secondary_path_def)
next
  case (Some sc)
  show ?thesis
  proof (cases helper)
    case None
    then show ?thesis using Some by (simp add: secondary_path_def)
  next
    case hl: (Some hl)
    show ?thesis
    proof (cases "saveto_cb hl")
      case False
      then show ?thesis using Some hl by (simp add: secondary_path_def)
    next
      case True
      show ?thesis
      proof (cases "sc k")
        case None
        then show ?thesis using Some hl True by (simp add: secondary_path_def)
      next
        case sh: (Some sh)
        define s2 where "s2 = s\<lparr>sec_lookups := sec_lookups s @ [k],
            heap := (heap s)(e := mem\<lparr>in_cache := False, is_high_pri := (priority = HIGH),
                                       in_high_pri_pool := False, has_hit := False,
                                       is_secondary_cache_compatible := True,
                                       is_pending := False, is_promoted := False,
                                       key_data := k, hash := h, refs := 1, value_ptr := 0,
                                       sec_handle := Some sh\<rparr>)\<rparr>"
        have "sec_handle (heap s2 e) \<noteq> None" by (simp add: s2_def)
        from Promote_returns [OF this, of cfg mytid]
        obtain s3 where p: "Promote cfg mytid s2 e = Some s3" and l: "sec_lookups s3 = sec_lookups s2"
          by auto
        have l2: "sec_lookups s2 = sec_lookups s @ [k]" by (simp add: s2_def)
        show ?thesis
          using Some hl True sh p l l2
          by (simp add: secondary_path_def Let_def s2_def [symmetric] Free_def)
      qed
    qed
  qed
qed

lemma vanilla_path_hit:
  assumes "LRUHandleTable_Lookup (heap s) (table s) k h = Some pe"
  shows "(case vanilla_path cfg mytid g s k h of
            None \<Rightarrow> None
          | Some (Some e', g2, s2) \<Rightarrow> Some (Some e', g2, s2)
          | Some (None, g2, s2) \<Rightarrow>
               (case secondary_path cfg mytid s2 k h helper priority wait e mem of
                  None \<Rightarrow> None
                | Some (r, s3) \<Rightarrow> Some (r, g2, s3)))
         = vanilla_path cfg mytid g s k h"
  using assms
  by (simp add: vanilla_path_def Let_def split: option.splits)

text \<open>
  C7. With the hot index enabled (\<open>CBHTturnoff \<noteq> 0\<close>) Lookup first looks the key up in
  the primary table, whether or not the hot index is on for the shard of the key, and
  returns null on a miss, leaving the counters and the shard as they are. On a hit, the
  hot index is looked up exactly when it is on for the shard or \<open>CBHTturnoff = 100\<close>: a
  hit there is returned at once, with \<open>totalhit\<close> of the shard counted up and nothing
  but the hot index changed; after a miss there, and when the hot index is off for the
  shard, Lookup is the path under the mutex. With the hot index disabled
  (\<open>CBHTturnoff = 0\<close>) and a miss in the primary table, Lookup returns, and it asks the
  secondary cache for the key exactly when one is configured and the caller's helper has
  a \<open>saveto_cb\<close>; otherwise it returns null and changes nothing.
\<close>

theorem Lookup_paths:
  "(CBHTturnoff cfg \<noteq> 0 \<and> LRUHandleTable_Lookup (heap s) (table s) k h = None \<longrightarrow>
      Lookup cfg mytid g s k h helper priority wait e mem = Some (None, g, s))
   \<and> (CBHTturnoff cfg \<noteq> 0 \<and> LRUHandleTable_Lookup (heap s) (table s) k h \<noteq> None
        \<and> (CBHTState g (hashshard_of cfg h) \<or> CBHTturnoff cfg = 100) \<longrightarrow>
      (let hs = hashshard_of cfg h;
           g1 = g\<lparr>totalhit := (totalhit g)(hs := totalhit g hs + 1)\<rparr>;
           g2 = g1\<lparr>nohit := (nohit g1)(hs := nohit g1 hs + 1)\<rparr>
       in case CBHTable_Lookup cfg mytid (heap s) (cbhtable s) k h of
            (Some e', t') \<Rightarrow>
              Lookup cfg mytid g s k h helper priority wait e mem = Some (Some e', g1, s\<lparr>cbhtable := t'\<rparr>)
          | (None, t') \<Rightarrow>
              Lookup cfg mytid g s k h helper priority wait e mem
                = vanilla_path cfg mytid
                    (if CBHTturnoff cfg \<noteq> 100 \<and> nohit g2 hs > Nsupple g2 hs
                     then g2\<lparr>CBHTState := (CBHTState g2)(hs := False)\<rparr> else g2)
                    (s\<lparr>cbhtable := t'\<rparr>) k h))
   \<and> (CBHTturnoff cfg \<noteq> 0 \<and> LRUHandleTable_Lookup (heap s) (table s) k h \<noteq> None
        \<and> \<not> (CBHTState g (hashshard_of cfg h) \<or> CBHTturnoff cfg = 100) \<longrightarrow>
      Lookup cfg mytid g s k h helper priority wait e mem = vanilla_path cfg mytid g s k h)
   \<and> (CBHTturnoff cfg = 0 \<and> LRUHandleTable_Lookup (heap s) (table s) k h = None \<longrightarrow>
      (\<exists>r s'. Lookup cfg mytid g s k h helper priority wait e mem = Some (r, g, s')
          \<and> (if secondary_cache s \<noteq> None \<and> (case helper of None \<Rightarrow> False | Some hl \<Rightarrow> saveto_cb hl)
             then sec_lookups s' = sec_lookups s @ [k]
             else r = None \<and> s' = s)))"
proof (intro conjI impI)
  assume "CBHTturnoff cfg \<noteq> 0 \<and> LRUHandleTable_Lookup (heap s) (table s) k h = None"
  then show "Lookup cfg mytid g s k h helper priority wait e mem = Some (None, g, s)"
    by (simp add: Lookup_def dca_path_def)
next
  assume a: "CBHTturnoff cfg \<noteq> 0 \<and> LRUHandleTable_Lookup (heap s) (table s) k h \<noteq> None
        \<and> (CBHTState g (hashshard_of cfg h) \<or> CBHTturnoff cfg = 100)"
  then obtain pe where pe: "LRUHandleTable_Lookup (heap s) (table s) k h = Some pe" by auto
  obtain r t' where c: "CBHTable_Lookup cfg mytid (heap s) (cbhtable s) k h = (r, t')"
    by (cases "CBHTable_Lookup cfg mytid (heap s) (cbhtable s) k h")
  have pe': "LRUHandleTable_Lookup (heap (s\<lparr>cbhtable := t'\<rparr>)) (table (s\<lparr>cbhtable := t'\<rparr>)) k h = Some pe"
    using pe by simp
  show "let hs = hashshard_of cfg h;
           g1 = g\<lparr>totalhit := (totalhit g)(hs := totalhit g hs + 1)\<rparr>;
           g2 = g1\<lparr>nohit := (nohit g1)(hs := nohit g1 hs + 1)\<rparr>
       in case CBHTable_Lookup cfg mytid (heap s) (cbhtable s) k h of
            (Some e', t') \<Rightarrow>
              Lookup cfg mytid g s k h helper priority wait e mem = Some (Some e', g1, s\<lparr>cbhtable := t'\<rparr>)
          | (None, t') \<Rightarrow>
              Lookup cfg mytid g s k h helper priority wait e mem
                = vanilla_path cfg mytid
                    (if CBHTturnoff cfg \<noteq> 100 \<and> nohit g2 hs > Nsupple g2 hs
                     then g2\<lparr>CBHTState := (CBHTState g2)(hs := False)\<rparr> else g2)
                    (s\<lparr>cbhtable := t'\<rparr>) k h"
  proof (cases r)
    case None
    show ?thesis
      using a pe c None
      by (simp add: Lookup_def dca_path_def Let_def vanilla_path_hit [OF pe'])
  next
    case (Some e')
    show ?thesis
      using a pe c Some
      by (simp add: Lookup_def dca_path_def Let_def)
  qed
next
  assume a: "CBHTturnoff cfg \<noteq> 0 \<and> LRUHandleTable_Lookup (heap s) (table s) k h \<noteq> None
        \<and> \<not> (CBHTState g (hashshard_of cfg h) \<or> CBHTturnoff cfg = 100)"
  then obtain pe where pe: "LRUHandleTable_Lookup (heap s) (table s) k h = Some pe" by auto
  show "Lookup cfg mytid g s k h helper priority wait e mem = vanilla_path cfg mytid g s k h"
    using a pe
    by (simp add: Lookup_def dca_path_def Let_def vanilla_path_hit [OF pe])
next
  assume a: "CBHTturnoff cfg = 0 \<and> LRUHandleTable_Lookup (heap s) (table s) k h = None"
  from secondary_path_returns [of cfg mytid s k h helper priority wait e mem]
  obtain r s' where sp: "secondary_path cfg mytid s k h helper priority wait e mem = Some (r, s')"
    and l: "if secondary_cache s \<noteq> None \<and> (case helper of None \<Rightarrow> False | Some hl \<Rightarrow> saveto_cb hl)
        then sec_lookups s' = sec_lookups s @ [k]
        else r = None \<and> s' = s" by blast
  have "Lookup cfg mytid g s k h helper priority wait e mem = Some (r, g, s')"
    using a sp by (simp add: Lookup_def dca_path_def vanilla_path_def Let_def)
  with l show "\<exists>r s'. Lookup cfg mytid g s k h helper priority wait e mem = Some (r, g, s')
          \<and> (if secondary_cache s \<noteq> None \<and> (case helper of None \<Rightarrow> False | Some hl \<Rightarrow> saveto_cb hl)
             then sec_lookups s' = sec_lookups s @ [k]
             else r = None \<and> s' = s)"
    by blast
qed

theorem Lookup_paths_witness:
  "(CBHTturnoff cfg0 \<noteq> 0 \<and> LRUHandleTable_Lookup (heap shard_lru) (table shard_lru) ''a'' 0 = Some 7
      \<and> CBHTState g_on (hashshard_of cfg0 0)
      \<and> Lookup cfg0 0 g_on shard_lru ''a'' 0 None LOW True 9 zeroed
          = Some (Some 7, g_on\<lparr>totalhit := (totalhit g_on)(0 := 1)\<rparr>,
                  shard_lru\<lparr>cbhtable := (cbhtable shard_lru)
                     \<lparr>DCA_ref_pool := (DCA_ref_pool (cbhtable shard_lru))(0 := 1)\<rparr>\<rparr>))
   \<and> (CBHTturnoff cfg_off = 0 \<and> LRUHandleTable_Lookup (heap shard_sec) (table shard_sec) ''k'' 0 = None
      \<and> (\<exists>r s'. Lookup cfg_off 0 g0 shard_sec ''k'' 0 (Some helper0) LOW True 7 zeroed = Some (r, g0, s')
            \<and> sec_lookups s' = [''k'']))"
proof -
  have p1: "LRUHandleTable_Lookup (heap shard_lru) (table shard_lru) ''a'' 0 = Some 7"
    by (simp add: LRUHandleTable_Lookup_def FindPointer_def bucket_index_def deref_def
        shard_lru_def ex_defs LRUCacheShard_new_def LRUHandleTable_new_def CBHTable_new_def)
  have p2: "LRUHandleTable_Lookup (heap shard_sec) (table shard_sec) ''k'' 0 = None"
    by (simp add: LRUHandleTable_Lookup_def FindPointer_def bucket_index_def deref_def
        shard_sec_def ex_defs LRUCacheShard_new_def LRUHandleTable_new_def CBHTable_new_def)
  have c1: "CBHTturnoff cfg0 \<noteq> 0" "CBHTState g_on (hashshard_of cfg0 0)"
    by (simp_all add: cfg0_def g_on_def g0_def)
  have c2: "CBHTturnoff cfg_off = 0" by (simp add: cfg0_def cfg_off_def)
  have hs: "hashshard_of cfg0 0 = 0" by (simp add: hashshard_of_def Shard_def cfg0_def)
  have th: "totalhit g_on 0 = 0" by (simp add: g_on_def g0_def)
  have sl: "secondary_cache shard_sec \<noteq> None" "saveto_cb helper0" "sec_lookups shard_sec = []"
    by (simp_all add: shard_sec_def helper0_def shard0_def LRUCacheShard_new_def)
  have cl: "CBHTable_Lookup cfg0 0 (heap shard_lru) (cbhtable shard_lru) ''a'' 0
              = (Some 7, (cbhtable shard_lru)\<lparr>DCA_ref_pool := (DCA_ref_pool (cbhtable shard_lru))(0 := 1)\<rparr>)"
    by (simp add: CBHTable_Lookup_def CBHTable_FindPointer_def bucket_index_def deref_def
        stamp_valid_def Let_def
        shard_lru_def ex_defs LRUCacheShard_new_def LRUHandleTable_new_def CBHTable_new_def)
  have a: "Lookup cfg0 0 g_on shard_lru ''a'' 0 None LOW True 9 zeroed
          = Some (Some 7, g_on\<lparr>totalhit := (totalhit g_on)(0 := 1)\<rparr>,
                  shard_lru\<lparr>cbhtable := (cbhtable shard_lru)
                     \<lparr>DCA_ref_pool := (DCA_ref_pool (cbhtable shard_lru))(0 := 1)\<rparr>\<rparr>)"
    using Lookup_paths [where cfg = cfg0 and s = shard_lru and k = "''a''" and h = 0 and g = g_on
        and mytid = 0 and helper = None and priority = LOW and wait = True and e = 9 and mem = zeroed]
      p1 c1
    by (simp add: cl hs th Let_def)
  have b: "\<exists>r s'. Lookup cfg_off 0 g0 shard_sec ''k'' 0 (Some helper0) LOW True 7 zeroed = Some (r, g0, s')
            \<and> sec_lookups s' = [''k'']"
    using Lookup_paths [where cfg = cfg_off and s = shard_sec and k = "''k''" and h = 0 and g = g0
        and mytid = 0 and helper = "Some helper0" and priority = LOW and wait = True and e = 7
        and mem = zeroed] p2 c2 sl
    by simp
  from p1 p2 c1 c2 a b show ?thesis by simp
qed

text \<open>
  With the hot index enabled but off for the shard of the key, a secondary cache
  configured and a helper with \<open>saveto_cb\<close>, a miss in the primary table makes Lookup
  return null at the check that precedes the hot index: the path under the mutex is not
  taken and the secondary cache is not asked.
\<close>

theorem Lookup_filter_when_inactive:
  "CBHTturnoff cfg0 \<noteq> 0 \<and> CBHTturnoff cfg0 \<noteq> 100 \<and> \<not> CBHTState g0 (hashshard_of cfg0 0)
   \<and> secondary_cache shard_sec \<noteq> None \<and> saveto_cb helper0
   \<and> LRUHandleTable_Lookup (heap shard_sec) (table shard_sec) ''k'' 0 = None
   \<and> Lookup cfg0 0 g0 shard_sec ''k'' 0 (Some helper0) LOW True 7 zeroed = Some (None, g0, shard_sec)
   \<and> sec_lookups shard_sec = []"
  by (simp add: Lookup_def dca_path_def LRUHandleTable_Lookup_def FindPointer_def bucket_index_def
      deref_def g0_def shard_sec_def helper0_def Let_def
      ex_defs LRUCacheShard_new_def LRUHandleTable_new_def CBHTable_new_def)

subsection \<open>Insert over an entry of the same key\<close>

lemma dca_eq_refl [simp]: "dca_eq hp hp"
  by (simp add: dca_eq_def)

lemma dca_eq_fields:
  assumes "dca_eq hp hp'"
  shows "value_ptr (hp' a) = value_ptr (hp a)" "charge (hp' a) = charge (hp a)"
    "key_data (hp' a) = key_data (hp a)" "hash (hp' a) = hash (hp a)"
    "in_cache (hp' a) = in_cache (hp a)" "in_high_pri_pool (hp' a) = in_high_pri_pool (hp a)"
    "is_high_pri (hp' a) = is_high_pri (hp a)" "has_hit (hp' a) = has_hit (hp a)"
    "sec_handle (hp' a) = sec_handle (hp a)"
    "is_secondary_cache_compatible (hp' a) = is_secondary_cache_compatible (hp a)"
    "is_promoted (hp' a) = is_promoted (hp a)" "is_pending (hp' a) = is_pending (hp a)"
proof -
  from assms have e: "hp' a = (hp a)\<lparr>refs := refs (hp' a), indca := indca (hp' a),
                          DCAstamp := DCAstamp (hp' a), DCAstamp_tc := DCAstamp_tc (hp' a)\<rparr>"
    by (simp add: dca_eq_def)
  show "value_ptr (hp' a) = value_ptr (hp a)" by (subst e) simp
  show "charge (hp' a) = charge (hp a)" by (subst e) simp
  show "key_data (hp' a) = key_data (hp a)" by (subst e) simp
  show "hash (hp' a) = hash (hp a)" by (subst e) simp
  show "in_cache (hp' a) = in_cache (hp a)" by (subst e) simp
  show "in_high_pri_pool (hp' a) = in_high_pri_pool (hp a)" by (subst e) simp
  show "is_high_pri (hp' a) = is_high_pri (hp a)" by (subst e) simp
  show "has_hit (hp' a) = has_hit (hp a)" by (subst e) simp
  show "sec_handle (hp' a) = sec_handle (hp a)" by (subst e) simp
  show "is_secondary_cache_compatible (hp' a) = is_secondary_cache_compatible (hp a)" by (subst e) simp
  show "is_promoted (hp' a) = is_promoted (hp a)" by (subst e) simp
  show "is_pending (hp' a) = is_pending (hp a)" by (subst e) simp
qed

lemma dca_eqI:
  assumes "\<And>a. value_ptr (hp' a) = value_ptr (hp a)" "\<And>a. charge (hp' a) = charge (hp a)"
    "\<And>a. key_data (hp' a) = key_data (hp a)" "\<And>a. hash (hp' a) = hash (hp a)"
    "\<And>a. in_cache (hp' a) = in_cache (hp a)" "\<And>a. in_high_pri_pool (hp' a) = in_high_pri_pool (hp a)"
    "\<And>a. is_high_pri (hp' a) = is_high_pri (hp a)" "\<And>a. has_hit (hp' a) = has_hit (hp a)"
    "\<And>a. sec_handle (hp' a) = sec_handle (hp a)"
    "\<And>a. is_secondary_cache_compatible (hp' a) = is_secondary_cache_compatible (hp a)"
    "\<And>a. is_promoted (hp' a) = is_promoted (hp a)" "\<And>a. is_pending (hp' a) = is_pending (hp a)"
  shows "dca_eq hp hp'"
  unfolding dca_eq_def
  by (intro allI LRUHandle.equality) (simp_all add: assms)

lemma dca_eq_trans: "dca_eq hpa hpb \<Longrightarrow> dca_eq hpb hpc \<Longrightarrow> dca_eq hpa hpc"
  by (rule dca_eqI) (simp_all add: dca_eq_fields)

lemma dca_eq_sym: "dca_eq hp hp' \<Longrightarrow> dca_eq hp' hp"
  by (rule dca_eqI) (simp_all add: dca_eq_fields)

lemma dca_eq_same_keys: "dca_eq hp hp' \<Longrightarrow> same_keys hp hp'"
  by (simp add: same_keys_def dca_eq_fields)

lemma dca_eq_upd [simp]:
  "dca_eq hp (upd hp a (\<lambda>e. e\<lparr>refs := rv, DCAstamp := st, indca := b\<rparr>))"
  "dca_eq hp (upd hp a (\<lambda>e. e\<lparr>indca := b, DCAstamp := st, DCAstamp_tc := tc\<rparr>))"
  "dca_eq hp (upd hp a (\<lambda>e. e\<lparr>refs := rv\<rparr>))"
  by (rule dca_eqI; simp add: upd_def)+

lemma CBHTable_Remove_dca_eq:
  "dca_eq hp (fst (snd (CBHTable_Remove cfg hp t k h df)))"
  by (simp add: CBHTable_Remove_def Let_def split_beta split: option.splits)

lemma EvictFIFO_loop_dca_eq:
  "dca_eq hp (fst (snd (EvictFIFO_loop n cfg mytid hp t)))"
proof (induction n arbitrary: hp t)
  case 0
  show ?case by simp
next
  case (Suc n)
  show ?case
  proof (cases "hashkeylist t")
    case Nil
    then show ?thesis by simp
  next
    case (Cons temp rest)
    obtain r t2 where l: "CBHTable_Lookup cfg mytid hp (t\<lparr>hashkeylist := rest\<rparr>) (fst temp) (snd temp) = (r, t2)"
      by (cases "CBHTable_Lookup cfg mytid hp (t\<lparr>hashkeylist := rest\<rparr>) (fst temp) (snd temp)")
    show ?thesis
    proof (cases r)
      case None
      with Cons l Suc.IH [of hp t2] show ?thesis by simp
    next
      case (Some x)
      obtain res hp3 t3 where rm: "CBHTable_Remove cfg hp t2 (fst temp) (snd temp) True = (res, hp3, t3)"
        by (cases "CBHTable_Remove cfg hp t2 (fst temp) (snd temp) True")
      from CBHTable_Remove_dca_eq [of hp cfg t2 "fst temp" "snd temp" True] rm
      have d: "dca_eq hp hp3" by simp
      show ?thesis
      proof (cases res)
        case None
        from d Suc.IH [of hp3 "t3\<lparr>hashkeylist := hashkeylist t3 @ [temp]\<rparr>"]
        have "dca_eq hp (fst (snd (EvictFIFO_loop n cfg mytid hp3 (t3\<lparr>hashkeylist := hashkeylist t3 @ [temp]\<rparr>))))"
          by (rule dca_eq_trans)
        with Cons l Some rm None show ?thesis by simp
      next
        case (Some y)
        with Cons l \<open>r = Some x\<close> rm d show ?thesis by simp
      qed
    qed
  qed
qed

lemma CBHTable_Insert_dca_eq:
  "dca_eq hp (fst (snd (CBHTable_Insert cfg mytid hp t e)))"
proof -
  define hpe where "hpe = (if IsTableFull t then fst (snd (EvictFIFO cfg mytid hp t)) else hp)"
  have a: "dca_eq hp hpe"
    by (simp add: hpe_def EvictFIFO_def EvictFIFO_loop_dca_eq)
  have b: "dca_eq hpe (upd hpe e (\<lambda>x. x\<lparr>indca := True, DCAstamp := st, DCAstamp_tc := tc\<rparr>))" for st tc
    by simp
  have c: "dca_eq hp (upd hpe e (\<lambda>x. x\<lparr>indca := True, DCAstamp := st, DCAstamp_tc := tc\<rparr>))" for st tc
    using a b by (rule dca_eq_trans)
  have "fst (snd (CBHTable_Insert cfg mytid hp t e)) = hpe
        \<or> (\<exists>st tc. fst (snd (CBHTable_Insert cfg mytid hp t e))
              = upd hpe e (\<lambda>x. x\<lparr>indca := True, DCAstamp := st, DCAstamp_tc := tc\<rparr>))"
    by (auto simp: CBHTable_Insert_def Let_def split_beta hpe_def)
  with a c show ?thesis by auto
qed

subsection \<open>The pool bookkeeping through Insert\<close>

lemma prev_of_last:
  "distinct lo \<Longrightarrow> lo \<noteq> [] \<Longrightarrow>
   prev_of p (lo @ hi) (last lo) = (if butlast lo = [] then p else Some (last (butlast lo)))"
proof (induction lo arbitrary: p)
  case Nil
  then show ?case by simp
next
  case (Cons x xs)
  show ?case
  proof (cases "xs = []")
    case True
    then show ?thesis by simp
  next
    case False
    with Cons.prems have ne: "x \<noteq> last xs" by auto
    from Cons.IH [of "Some x"] Cons.prems False
    have "prev_of (Some x) (xs @ hi) (last xs) = (if butlast xs = [] then Some x else Some (last (butlast xs)))"
      by simp
    with False ne show ?thesis by simp
  qed
qed

lemma remove1_last: "distinct lo \<Longrightarrow> lo \<noteq> [] \<Longrightarrow> remove1 (last lo) lo = butlast lo"
  by (induction lo) auto

lemma last_remove1: "e \<in> set lo \<Longrightarrow> e \<noteq> last lo \<Longrightarrow> remove1 e lo \<noteq> [] \<and> last (remove1 e lo) = last lo"
  by (induction lo) (auto split: if_splits)

lemma LRU_Remove_pool_fields:
  "lru_low_pri (LRU_Remove cfg s e)
     = (if e \<in> set (lru s) \<and> lru_low_pri s = Some e then prev_of None (lru s) e else lru_low_pri s)"
  "high_pri_pool_usage (LRU_Remove cfg s e)
     = (if e \<in> set (lru s) \<and> in_high_pri_pool (heap s e)
        then high_pri_pool_usage s - total_charge_of cfg s e else high_pri_pool_usage s)"
  by (simp_all add: LRU_Remove_def Let_def)

lemma LRU_Remove_split:
  assumes sp: "pool_split cfg s lo hi"
  shows "\<exists>lo' hi'. pool_split cfg (LRU_Remove cfg s e) lo' hi'"
proof -
  from sp have l: "lru s = lo @ hi" and d: "distinct (lo @ hi)"
    and lp: "lru_low_pri s = (if lo = [] then None else Some (last lo))"
    and u: "high_pri_pool_usage s = sum_list (map (total_charge_of cfg s) hi)"
    and c: "0 \<le> high_pri_pool_capacity s"
    and flo: "\<forall>x \<in> set lo. \<not> in_high_pri_pool (heap s x)"
    and fhi: "\<forall>x \<in> set hi. in_high_pri_pool (heap s x)"
    by (simp_all add: pool_split_def)
  consider (out) "e \<notin> set (lru s)" | (low) "e \<in> set lo" | (high) "e \<in> set hi" "e \<notin> set lo"
    using l by auto
  then show ?thesis
  proof cases
    case out
    then have "LRU_Remove cfg s e = s" by (simp add: LRU_Remove_def)
    with sp show ?thesis by auto
  next
    case low
    then have ne: "lo \<noteq> []" by auto
    from low l have el: "e \<in> set (lru s)" by simp
    from low d have nh: "e \<notin> set hi" by auto
    from low flo have nf: "\<not> in_high_pri_pool (heap s e)" by simp
    have rl: "remove1 e (lo @ hi) = remove1 e lo @ hi" using low by (simp add: remove1_append)
    have dl: "distinct (remove1 e lo @ hi)" using d by auto
    have "pool_split cfg (LRU_Remove cfg s e) (remove1 e lo) hi"
    proof (cases "e = last lo")
      case True
      from d ne have p: "prev_of None (lo @ hi) (last lo)
                    = (if butlast lo = [] then None else Some (last (butlast lo)))"
        by (intro prev_of_last) simp_all
      from d ne have r: "remove1 (last lo) lo = butlast lo" by (intro remove1_last) simp_all
      have lp': "lru_low_pri (LRU_Remove cfg s e)
                   = (if remove1 e lo = [] then None else Some (last (remove1 e lo)))"
        using el lp ne True p r l by (simp add: LRU_Remove_pool_fields)
      show ?thesis
        unfolding pool_split_def
        using lp' l rl dl u c flo fhi nf el
        by (auto simp: lru_LRU_Remove LRU_Remove_pool_fields dest: notin_set_remove1)
    next
      case False
      from last_remove1 [OF low False] have r: "remove1 e lo \<noteq> []" "last (remove1 e lo) = last lo"
        by simp_all
      have lp': "lru_low_pri (LRU_Remove cfg s e)
                   = (if remove1 e lo = [] then None else Some (last (remove1 e lo)))"
        using el lp ne False r by (simp add: LRU_Remove_pool_fields)
      show ?thesis
        unfolding pool_split_def
        using lp' l rl dl u c flo fhi nf el
        by (auto simp: lru_LRU_Remove LRU_Remove_pool_fields dest: notin_set_remove1)
    qed
    then show ?thesis by blast
  next
    case high
    from high l have el: "e \<in> set (lru s)" by simp
    from high fhi have f: "in_high_pri_pool (heap s e)" by simp
    have rl: "remove1 e (lo @ hi) = lo @ remove1 e hi" using high by (simp add: remove1_append)
    have dl: "distinct (lo @ remove1 e hi)" using d by auto
    have nl: "lru_low_pri s \<noteq> Some e" using lp high by auto
    have su: "sum_list (map (total_charge_of cfg s) hi)
                = total_charge_of cfg s e + sum_list (map (total_charge_of cfg s) (remove1 e hi))"
      using high(1) by (rule sum_list_map_remove1)
    have "pool_split cfg (LRU_Remove cfg s e) lo (remove1 e hi)"
      unfolding pool_split_def
      using l rl dl lp u c flo fhi f nl su el
      by (auto simp: lru_LRU_Remove LRU_Remove_pool_fields dest: notin_set_remove1)
    then show ?thesis by blast
  qed
qed

lemma LRU_Remove_ok: "pool_ok cfg s \<Longrightarrow> pool_ok cfg (LRU_Remove cfg s e)"
  using pool_ok_split LRU_Remove_split pool_split_ok by blast

lemma remove_from_dca_pool: "pool_ok cfg (remove_from_dca cfg s old) = pool_ok cfg s"
  by (rule pool_ok_cong)
     (simp_all add: remove_from_dca_def split_beta dca_eq_fields [OF CBHTable_Remove_dca_eq])

lemma evict_one_pool:
  assumes "pool_ok cfg s"
  shows "pool_ok cfg (evict_one cfg s old)"
proof -
  have "pool_ok cfg (evict_one cfg s old) = pool_ok cfg (remove_from_dca cfg (LRU_Remove cfg s old) old)"
    by (rule pool_ok_cong) (simp_all add: evict_one_def Let_def split_beta upd_def)
  with assms show ?thesis by (simp add: remove_from_dca_pool LRU_Remove_ok)
qed

lemma EvictFromLRU_pool:
  "pool_ok cfg s \<Longrightarrow> pool_ok cfg (fst (EvictFromLRU cfg c s d))"
proof (induction cfg c s d rule: EvictFromLRU.induct)
  case (1 cfg c s deleted)
  show ?case
  proof (cases "usage s + c > capacity s \<and> lru s \<noteq> []")
    case False
    then have "(usage s + c > capacity s \<and> lru s \<noteq> []) = False" by simp
    then have "EvictFromLRU cfg c s deleted = (s, deleted)"
      by (subst EvictFromLRU.simps) (simp only: if_False)
    with "1.prems" show ?thesis by simp
  next
    case True
    have e: "EvictFromLRU cfg c s deleted
               = EvictFromLRU cfg c (evict_one cfg s (hd (lru s))) (deleted @ [hd (lru s)])"
      using True by (subst EvictFromLRU.simps) simp
    from "1.IH" [OF True evict_one_pool [OF "1.prems"]]
    show ?thesis unfolding e .
  qed
qed

lemma overwrite_old_props:
  assumes p: "pool_ok cfg s1"
  shows "pool_ok cfg (fst (overwrite_old cfg mytid s1 e old lrl))
       \<and> table (fst (overwrite_old cfg mytid s1 e old lrl)) = table s1
       \<and> freed (fst (overwrite_old cfg mytid s1 e old lrl)) = freed s1
       \<and> deallocated (fst (overwrite_old cfg mytid s1 e old lrl)) = deallocated s1
       \<and> capacity (fst (overwrite_old cfg mytid s1 e old lrl)) = capacity s1
       \<and> metadata_charge_policy (fst (overwrite_old cfg mytid s1 e old lrl)) = metadata_charge_policy s1
       \<and> dca_eq (upd (heap s1) old (\<lambda>h. h\<lparr>in_cache := False\<rparr>)) (heap (fst (overwrite_old cfg mytid s1 e old lrl)))
       \<and> (if refs (heap s1 old) = 0
          then lru (fst (overwrite_old cfg mytid s1 e old lrl)) = remove1 old (lru s1)
             \<and> usage (fst (overwrite_old cfg mytid s1 e old lrl)) = usage s1 - total_charge_of cfg s1 old
             \<and> snd (overwrite_old cfg mytid s1 e old lrl) = lrl @ [old]
          else lru (fst (overwrite_old cfg mytid s1 e old lrl)) = lru s1
             \<and> usage (fst (overwrite_old cfg mytid s1 e old lrl)) = usage s1
             \<and> snd (overwrite_old cfg mytid s1 e old lrl) = lrl)"
proof -
  define s2 where "s2 = s1\<lparr>heap := upd (heap s1) old (\<lambda>h. h\<lparr>in_cache := False\<rparr>)\<rparr>"
  define s3 where "s3 = (if refs (heap s1 old) = 0
                         then (LRU_Remove cfg s2 old)\<lparr>usage := usage s2 - total_charge_of cfg s2 old\<rparr>
                         else s2)"
  define s4 where "s4 = (if CBHTturnoff cfg \<noteq> 0 \<and> indca (heap s3 old)
                         then s3\<lparr>heap := fst (snd (CBHTable_Insert cfg mytid (heap s3) (cbhtable s3) e)),
                                 cbhtable := snd (snd (CBHTable_Insert cfg mytid (heap s3) (cbhtable s3) e))\<rparr>
                         else s3)"
  have r: "refs (heap s2 old) = refs (heap s1 old)" by (simp add: s2_def upd_def)
  have z: "(\<not> 0 < refs (heap s1 old)) = (refs (heap s1 old) = 0)" by (simp add: word_gt_0)
  have eq: "overwrite_old cfg mytid s1 e old lrl
              = (s4, if refs (heap s1 old) = 0 then lrl @ [old] else lrl)"
    by (simp add: overwrite_old_def Let_def split_beta s2_def [symmetric] r z s3_def s4_def)
  have p2: "pool_ok cfg s2 = pool_ok cfg s1"
    by (rule pool_ok_cong) (simp_all add: s2_def upd_def)
  have tc2: "total_charge_of cfg s2 old = total_charge_of cfg s1 old"
    by (simp add: s2_def total_charge_of_def CalcTotalCharge_def upd_def)
  have p3: "pool_ok cfg s3"
  proof (cases "refs (heap s1 old) = 0")
    case True
    have "pool_ok cfg s3 = pool_ok cfg (LRU_Remove cfg s2 old)"
      by (rule pool_ok_cong) (simp_all add: s3_def True)
    with p p2 show ?thesis by (simp add: LRU_Remove_ok)
  next
    case False
    with p p2 show ?thesis by (simp add: s3_def)
  qed
  have h3: "heap s3 = heap s2" by (simp add: s3_def)
  have p4: "pool_ok cfg s4 = pool_ok cfg s3"
    by (rule pool_ok_cong) (simp_all add: s4_def dca_eq_fields [OF CBHTable_Insert_dca_eq])
  have d4: "dca_eq (heap s2) (heap s4)"
    using CBHTable_Insert_dca_eq [of "heap s3" cfg mytid "cbhtable s3" e]
    by (simp add: s4_def h3)
  have f: "table s4 = table s1" "freed s4 = freed s1" "deallocated s4 = deallocated s1"
    "capacity s4 = capacity s1" "metadata_charge_policy s4 = metadata_charge_policy s1"
    by (simp_all add: s4_def s3_def s2_def)
  have l: "lru s4 = (if refs (heap s1 old) = 0 then remove1 old (lru s1) else lru s1)"
    by (simp add: s4_def s3_def lru_LRU_Remove) (simp add: s2_def)
  have u: "usage s4 = (if refs (heap s1 old) = 0 then usage s1 - total_charge_of cfg s1 old else usage s1)"
    by (simp add: s4_def s3_def tc2) (simp add: s2_def)
  have h2: "heap s2 = upd (heap s1) old (\<lambda>h. h\<lparr>in_cache := False\<rparr>)" by (simp add: s2_def)
  show ?thesis
    using p3 p4 d4 f l u by (simp add: eq h2)
qed

lemma chain_find_store:
  "chain_find hp k h xs < length xs \<Longrightarrow> hash (hp' e) = h \<Longrightarrow> key_data (hp' e) = k
   \<Longrightarrow> (\<And>a. a \<in> set xs \<Longrightarrow> hash (hp' a) = hash (hp a) \<and> key_data (hp' a) = key_data (hp a))
   \<Longrightarrow> chain_find hp' k h (xs[chain_find hp k h xs := e]) = chain_find hp k h xs"
  by (induction xs) auto

lemma LRUHandleTable_Insert_over:
  assumes "LRUHandleTable_Lookup hp t k h = Some old" "key_data (hp e) = k" "hash (hp e) = h"
  shows "fst (LRUHandleTable_Insert hp t e) = Some old
       \<and> length_bits_ht (snd (LRUHandleTable_Insert hp t e)) = length_bits_ht t
       \<and> list_ht (snd (LRUHandleTable_Insert hp t e))
           = (list_ht t)(bucket_index (length_bits_ht t) h :=
                (list_ht t (bucket_index (length_bits_ht t) h))
                  [chain_find hp k h (list_ht t (bucket_index (length_bits_ht t) h)) := e])
       \<and> chain_find hp k h (list_ht t (bucket_index (length_bits_ht t) h))
           < length (list_ht t (bucket_index (length_bits_ht t) h))
       \<and> old \<in> table_entries t"
proof -
  let ?i = "bucket_index (length_bits_ht t) h"
  let ?j = "chain_find hp k h (list_ht t ?i)"
  from assms(1) have j: "?j < length (list_ht t ?i)" and o: "list_ht t ?i ! ?j = old"
    by (auto simp: LRUHandleTable_Lookup_def FindPointer_def Let_def deref_def split: if_splits)
  from j o have "old \<in> set (list_ht t ?i)" using nth_mem by fastforce
  then have m: "old \<in> table_entries t" by (auto simp: table_entries_def)
  show ?thesis
    using j o m assms(2,3)
    by (simp add: LRUHandleTable_Insert_def FindPointer_def Let_def deref_def chain_store_def)
qed

lemma Lookup_after_store:
  assumes j: "chain_find hp k h (list_ht t (bucket_index (length_bits_ht t) h))
                < length (list_ht t (bucket_index (length_bits_ht t) h))"
    and b: "length_bits_ht t' = length_bits_ht t"
    and l: "list_ht t' = (list_ht t)(bucket_index (length_bits_ht t) h :=
                (list_ht t (bucket_index (length_bits_ht t) h))
                  [chain_find hp k h (list_ht t (bucket_index (length_bits_ht t) h)) := e])"
    and e: "hash (hp' e) = h" "key_data (hp' e) = k"
    and sk: "same_keys hp hp'"
  shows "LRUHandleTable_Lookup hp' t' k h = Some e"
proof -
  let ?i = "bucket_index (length_bits_ht t) h"
  have "chain_find hp' k h ((list_ht t ?i)[chain_find hp k h (list_ht t ?i) := e])
          = chain_find hp k h (list_ht t ?i)"
    using j e sk by (intro chain_find_store) (simp_all add: same_keys_def)
  with j show ?thesis
    by (simp add: LRUHandleTable_Lookup_def FindPointer_def Let_def b l deref_def)
qed

lemma unflag_fields:
  assumes "unflag hp' = unflag hp"
  shows "key_data (hp' a) = key_data (hp a)" "hash (hp' a) = hash (hp a)"
    "value_ptr (hp' a) = value_ptr (hp a)" "in_cache (hp' a) = in_cache (hp a)"
    "charge (hp' a) = charge (hp a)" "refs (hp' a) = refs (hp a)" "indca (hp' a) = indca (hp a)"
    "DCAstamp (hp' a) = DCAstamp (hp a)" "DCAstamp_tc (hp' a) = DCAstamp_tc (hp a)"
    "has_hit (hp' a) = has_hit (hp a)" "is_high_pri (hp' a) = is_high_pri (hp a)"
proof -
  from assms have e: "(hp' a)\<lparr>in_high_pri_pool := False\<rparr> = (hp a)\<lparr>in_high_pri_pool := False\<rparr>"
    by (simp add: unflag_def fun_eq_iff)
  from arg_cong [OF e, of key_data] show "key_data (hp' a) = key_data (hp a)" by simp
  from arg_cong [OF e, of hash] show "hash (hp' a) = hash (hp a)" by simp
  from arg_cong [OF e, of value_ptr] show "value_ptr (hp' a) = value_ptr (hp a)" by simp
  from arg_cong [OF e, of in_cache] show "in_cache (hp' a) = in_cache (hp a)" by simp
  from arg_cong [OF e, of charge] show "charge (hp' a) = charge (hp a)" by simp
  from arg_cong [OF e, of refs] show "refs (hp' a) = refs (hp a)" by simp
  from arg_cong [OF e, of indca] show "indca (hp' a) = indca (hp a)" by simp
  from arg_cong [OF e, of DCAstamp] show "DCAstamp (hp' a) = DCAstamp (hp a)" by simp
  from arg_cong [OF e, of DCAstamp_tc] show "DCAstamp_tc (hp' a) = DCAstamp_tc (hp a)" by simp
  from arg_cong [OF e, of has_hit] show "has_hit (hp' a) = has_hit (hp a)" by simp
  from arg_cong [OF e, of is_high_pri] show "is_high_pri (hp' a) = is_high_pri (hp a)" by simp
qed

text \<open>
  What the end of \<open>InsertItem\<close> does to the state \<open>s4\<close> that the table insert and the
  overwrite leave: the new entry goes onto the LRU list or takes a reference.
\<close>

lemma InsertItem_link:
  assumes p: "pool_ok cfg s4"
  shows "\<exists>sx. (if handle = None then
                 (if \<not> indca (heap s4 e) then
                    (case LRU_Insert cfg s4 e of
                       None \<Rightarrow> None
                     | Some s3 \<Rightarrow> Some (st, handle, free_entries s3 lrl))
                  else Some (st, handle, free_entries s4 lrl))
               else
                 Some (st, Some (Some e),
                       free_entries (if \<not> indca (heap s4 e)
                                     then s4\<lparr>heap := upd (heap s4) e (\<lambda>h. h\<lparr>refs := refs h + 1\<rparr>)\<rparr>
                                     else s4) lrl))
             = Some (st, if handle = None then None else Some (Some e), free_entries sx lrl)
           \<and> pool_ok cfg sx \<and> table sx = table s4 \<and> usage sx = usage s4 \<and> freed sx = freed s4
           \<and> cbhtable sx = cbhtable s4
           \<and> set (lru sx) \<subseteq> insert e (set (lru s4))
           \<and> (\<forall>a. key_data (heap sx a) = key_data (heap s4 a) \<and> hash (heap sx a) = hash (heap s4 a)
                  \<and> value_ptr (heap sx a) = value_ptr (heap s4 a)
                  \<and> in_cache (heap sx a) = in_cache (heap s4 a))"
proof (cases "handle = None")
  case True
  show ?thesis
  proof (cases "indca (heap s4 e)")
    case i: True
    show ?thesis using True i p by (intro exI [of _ s4]) auto
  next
    case i: False
    from LRU_Insert_ok [OF p, of e] obtain s5 where
      l: "LRU_Insert cfg s4 e = Some s5" and p5: "pool_ok cfg s5"
      and sl: "set (lru s5) = insert e (set (lru s4))" and sb: "same_but_lru s4 s5" by blast
    note f = same_but_lru_freed [OF sb]
    from f have u: "unflag (heap s5) = unflag (heap s4)" by simp
    show ?thesis
      using True i l p5 sl f unflag_fields [OF u]
      by (intro exI [of _ s5]) simp
  qed
next
  case False
  define s3 where "s3 = (if \<not> indca (heap s4 e)
                            then s4\<lparr>heap := upd (heap s4) e (\<lambda>h. h\<lparr>refs := refs h + 1\<rparr>)\<rparr>
                            else s4)"
  have "pool_ok cfg s3 = pool_ok cfg s4"
    by (rule pool_ok_cong) (simp_all add: s3_def upd_def)
  with p have p3: "pool_ok cfg s3" by simp
  from False obtain y where y: "handle = Some y" by auto
  have x: "table s3 = table s4" "usage s3 = usage s4" "freed s3 = freed s4" "cbhtable s3 = cbhtable s4"
    "lru s3 = lru s4"
    "\<And>a. key_data (heap s3 a) = key_data (heap s4 a) \<and> hash (heap s3 a) = hash (heap s4 a)
                  \<and> value_ptr (heap s3 a) = value_ptr (heap s4 a)
                  \<and> in_cache (heap s3 a) = in_cache (heap s4 a)"
    by (simp_all add: s3_def upd_def)
  show ?thesis
    unfolding y
    using p3 x
    by (intro exI [of _ s3]) (simp add: s3_def [symmetric] subset_insertI)
qed

lemma pool_ok_free_entries: "pool_ok cfg (free_entries s es) = pool_ok cfg s"
  by (rule pool_ok_cong) (simp_all add: free_entries_fields)

lemma InsertItem_overwrite:
  fixes cfg :: Config and s0 :: LRUCacheShard and e :: addr
  defines "tc \<equiv> total_charge_of cfg s0 e"
  defines "s1 \<equiv> fst (EvictFromLRU cfg tc s0 [])"
  defines "evicted \<equiv> snd (EvictFromLRU cfg tc s0 [])"
  assumes pool: "pool_ok cfg s0" and inv: "evict_inv cfg s0" and fr: "fresh s0 e"
    and adm: "\<not> (usage s1 + tc > capacity s1 \<and> (strict_capacity_limit s0 \<or> handle = None))"
    and old: "LRUHandleTable_Lookup (heap s1) (table s1) (key_data (heap s0 e)) (hash (heap s0 e)) = Some old"
  shows "\<exists>s'. InsertItem cfg mytid s0 e handle f
                = Some (OkOverwritten, if handle = None then None else Some (Some e), s')
           \<and> \<not> in_cache (heap s' old)
           \<and> (if refs (heap s1 old) = 0
              then old \<notin> set (lru s') \<and> usage s' = usage s1 + tc - total_charge_of cfg s1 old
                 \<and> freed s' = freed s0 @ evicted @ [old] \<and> old \<notin> set evicted
              else usage s' = usage s1 + tc \<and> freed s' = freed s0 @ evicted)
           \<and> LRUHandleTable_Lookup (heap s') (table s') (key_data (heap s0 e)) (hash (heap s0 e)) = Some e
           \<and> value_ptr (heap s' e) = value_ptr (heap s0 e)
           \<and> in_cache (heap s' e) = in_cache (heap s0 e)
           \<and> pool_ok cfg s' \<and> heap s1 old = heap s0 old \<and> old \<noteq> e"
proof -
  let ?k = "key_data (heap s0 e)" and ?h = "hash (heap s0 e)"
  have ev: "EvictFromLRU cfg tc s0 [] = (s1, evicted)" by (simp add: s1_def evicted_def)
  from EvictFromLRU_gen [OF inv, of tc "[]"] obtain n where
    post: "evict_post cfg tc s0 [] n s1 evicted" unfolding s1_def evicted_def by blast
  from post have evl: "evicted = take n (lru s0)"
    and hk: "\<And>a. a \<notin> set (take n (lru s0)) \<Longrightarrow> heap s1 a = heap s0 a"
    and eo: "\<And>x. x \<in> set (take n (lru s0)) \<Longrightarrow> evicted_ok cfg s0 s1 x"
    and fm: "evict_frame cfg s0 s1"
    and l1: "lru s1 = drop n (lru s0)"
    by (simp_all add: evict_post_def)
  from fr have e_lru: "e \<notin> set (lru s0)" and e_tbl: "e \<notin> table_entries (table s0)"
    by (simp_all add: fresh_def)
  from e_lru have "e \<notin> set (take n (lru s0))" by (auto dest: in_set_takeD)
  then have he: "heap s1 e = heap s0 e" by (rule hk)
  from fm have te: "table_entries (table s1) \<subseteq> table_entries (table s0)"
    and pol: "metadata_charge_policy s1 = metadata_charge_policy s0"
    by (simp_all add: evict_frame_def)
  note frame = EvictFromLRU_frame [of cfg tc s0 "[]"]
  from frame have fr1: "freed s1 = freed s0" and st1: "strict_capacity_limit s1 = strict_capacity_limit s0"
    by (simp_all add: s1_def)
  from EvictFromLRU_pool [OF pool, of tc "[]"] have p1: "pool_ok cfg s1" by (simp add: s1_def)
  have ke: "key_data (heap s1 e) = ?k" "hash (heap s1 e) = ?h" by (simp_all add: he)
  note ins = LRUHandleTable_Insert_over [OF old ke]
  define tbl where "tbl = snd (LRUHandleTable_Insert (heap s1) (table s1) e)"
  from ins have o_tbl: "old \<in> table_entries (table s1)" by simp
  with te e_tbl have oe: "old \<noteq> e" by auto
  have o_ev: "old \<notin> set evicted"
  proof
    assume "old \<in> set evicted"
    then have "evicted_ok cfg s0 s1 old" unfolding evl by (rule eo)
    with o_tbl show False by (simp add: evicted_ok_def)
  qed
  define s1a where "s1a = s1\<lparr>table := tbl, usage := usage s1 + tc\<rparr>"
  have "pool_ok cfg s1a = pool_ok cfg s1"
    by (rule pool_ok_cong) (simp_all add: s1a_def)
  with p1 have p1a: "pool_ok cfg s1a" by simp
  define s4 where "s4 = fst (overwrite_old cfg mytid s1a e old evicted)"
  define lrl where "lrl = snd (overwrite_old cfg mytid s1a e old evicted)"
  note ov = overwrite_old_props [OF p1a, of mytid e old evicted, folded s4_def lrl_def]
  from ov have p4: "pool_ok cfg s4" and t4: "table s4 = tbl" and f4: "freed s4 = freed s0"
    and d4: "dca_eq (upd (heap s1) old (\<lambda>h. h\<lparr>in_cache := False\<rparr>)) (heap s4)"
    by (simp_all add: s1a_def fr1)
  have tco: "total_charge_of cfg s1a old = total_charge_of cfg s1 old"
    by (simp add: s1a_def total_charge_of_def)
  have l1a: "lru s1a = lru s1" "usage s1a = usage s1 + tc" "heap s1a = heap s1"
    by (simp_all add: s1a_def)
  from ov have c4: "if refs (heap s1 old) = 0
          then lru s4 = remove1 old (lru s1) \<and> usage s4 = usage s1 + tc - total_charge_of cfg s1 old
             \<and> lrl = evicted @ [old]
          else lru s4 = lru s1 \<and> usage s4 = usage s1 + tc \<and> lrl = evicted"
    by (simp add: tco l1a)
  have adm': "(usage s1 + tc > capacity s1 \<and> (strict_capacity_limit s1 \<or> handle = None)) = False"
    using adm by (simp add: st1)
  have li: "LRUHandleTable_Insert (heap s1) (table s1) e = (Some old, tbl)"
    using ins by (simp add: tbl_def prod_eq_iff)
  have oo: "overwrite_old cfg mytid s1a e old evicted = (s4, lrl)"
    by (simp add: s4_def lrl_def)
  have ii: "InsertItem cfg mytid s0 e handle f =
      (if handle = None then
                 (if \<not> indca (heap s4 e) then
                    (case LRU_Insert cfg s4 e of
                       None \<Rightarrow> None
                     | Some s3 \<Rightarrow> Some (OkOverwritten, handle, free_entries s3 lrl))
                  else Some (OkOverwritten, handle, free_entries s4 lrl))
               else
                 Some (OkOverwritten, Some (Some e),
                       free_entries (if \<not> indca (heap s4 e)
                                     then s4\<lparr>heap := upd (heap s4) e (\<lambda>h. h\<lparr>refs := refs h + 1\<rparr>)\<rparr>
                                     else s4) lrl))"
    unfolding InsertItem_def tc_def [symmetric] Let_def ev prod.case adm' if_False li
      s1a_def [symmetric] option.case oo
    by simp
  from InsertItem_link [OF p4, of handle e OkOverwritten lrl] obtain sx where
    r: "InsertItem cfg mytid s0 e handle f
          = Some (OkOverwritten, if handle = None then None else Some (Some e), free_entries sx lrl)"
    and px: "pool_ok cfg sx" and tx: "table sx = table s4" and ux: "usage sx = usage s4"
    and fx: "freed sx = freed s4" and lx: "set (lru sx) \<subseteq> insert e (set (lru s4))"
    and hx: "\<And>a. key_data (heap sx a) = key_data (heap s4 a) \<and> hash (heap sx a) = hash (heap s4 a)
                  \<and> value_ptr (heap sx a) = value_ptr (heap s4 a)
                  \<and> in_cache (heap sx a) = in_cache (heap s4 a)"
    unfolding ii by blast
  let ?s' = "free_entries sx lrl"
  note fe = free_entries_fields
  have h4: "key_data (heap s4 a) = key_data (heap s1 a)" "hash (heap s4 a) = hash (heap s1 a)"
    "value_ptr (heap s4 a) = value_ptr (heap s1 a)"
    "in_cache (heap s4 a) = (in_cache (heap s1 a) \<and> a \<noteq> old)" for a
    using dca_eq_fields [OF d4, of a] by (auto simp: upd_def)
  have sk: "same_keys (heap s1) (heap ?s')"
    by (simp add: same_keys_def fe hx h4)
  have a1: "\<not> in_cache (heap ?s' old)" by (simp add: fe hx h4)
  from p1 have dl: "distinct (lru s1)" by (simp add: pool_ok_def)
  have a2: "if refs (heap s1 old) = 0
              then old \<notin> set (lru ?s') \<and> usage ?s' = usage s1 + tc - total_charge_of cfg s1 old
                 \<and> freed ?s' = freed s0 @ evicted @ [old] \<and> old \<notin> set evicted
              else usage ?s' = usage s1 + tc \<and> freed ?s' = freed s0 @ evicted"
  proof (cases "refs (heap s1 old) = 0")
    case True
    with c4 have l4: "lru s4 = remove1 old (lru s1)" by simp
    with dl have "old \<notin> set (lru s4)" by simp
    with lx oe have "old \<notin> set (lru sx)" by auto
    with True c4 o_ev show ?thesis by (simp add: fe ux fx f4)
  next
    case False
    with c4 show ?thesis by (simp add: fe ux fx f4)
  qed
  have a3: "LRUHandleTable_Lookup (heap ?s') (table ?s') ?k ?h = Some e"
  proof (rule Lookup_after_store [where hp = "heap s1" and t = "table s1"])
    show "chain_find (heap s1) ?k ?h (list_ht (table s1) (bucket_index (length_bits_ht (table s1)) ?h))
            < length (list_ht (table s1) (bucket_index (length_bits_ht (table s1)) ?h))"
      using ins by simp
    show "length_bits_ht (table ?s') = length_bits_ht (table s1)"
      using ins by (simp add: fe tx t4 tbl_def)
    show "list_ht (table ?s') = (list_ht (table s1))(bucket_index (length_bits_ht (table s1)) ?h :=
                (list_ht (table s1) (bucket_index (length_bits_ht (table s1)) ?h))
                  [chain_find (heap s1) ?k ?h (list_ht (table s1) (bucket_index (length_bits_ht (table s1)) ?h)) := e])"
      using ins by (simp add: fe tx t4 tbl_def)
    show "hash (heap ?s' e) = ?h" by (simp add: fe hx h4 he)
    show "key_data (heap ?s' e) = ?k" by (simp add: fe hx h4 he)
    show "same_keys (heap s1) (heap ?s')" by (rule sk)
  qed
  have a4: "value_ptr (heap ?s' e) = value_ptr (heap s0 e)" by (simp add: fe hx h4 he)
  have a5: "in_cache (heap ?s' e) = in_cache (heap s0 e)" using oe by (simp add: fe hx h4 he)
  have a6: "pool_ok cfg ?s'" using px by (simp add: pool_ok_free_entries)
  from o_ev have a7: "heap s1 old = heap s0 old" unfolding evl by (rule hk)
  from r a1 a2 a3 a4 a5 a6 a7 oe show ?thesis by blast
qed

lemma chains_ok_off:
  assumes "chains_ok hp bits ch" "\<And>i. e \<notin> set (ch i)"
  shows "chains_ok (hp(e := x)) bits ch"
proof -
  have "(hp(e := x)) a = hp a" if "a \<in> set (ch i)" for a i
    using that assms(2) [of i] by auto
  then have "chains_ok (hp(e := x)) bits ch = chains_ok hp bits ch"
    unfolding chains_ok_def by (simp cong: ball_cong)
  with assms(1) show ?thesis by simp
qed

lemma tl_sub: "set (tl xs) \<subseteq> set xs"
  by (cases xs) auto

lemma high_part_subset: "set (high_part s) \<subseteq> set (lru s)"
proof (cases "lru_low_pri s")
  case None
  then show ?thesis by (simp add: high_part_def)
next
  case (Some p)
  have "set (tl (dropWhile (\<lambda>x. x \<noteq> p) (lru s))) \<subseteq> set (dropWhile (\<lambda>x. x \<noteq> p) (lru s))"
    by (rule tl_sub)
  also have "\<dots> \<subseteq> set (lru s)" by (rule subsetI) (erule set_dropWhileD)
  finally show ?thesis using Some by (simp add: high_part_def)
qed

lemma pool_ok_off:
  assumes "pool_ok cfg s" "e \<notin> set (lru s)"
  shows "pool_ok cfg (s\<lparr>heap := (heap s)(e := x)\<rparr>)"
proof -
  let ?s' = "s\<lparr>heap := (heap s)(e := x)\<rparr>"
  have hp: "high_part ?s' = high_part s" by (simp add: high_part_def cong: option.case_cong)
  have "sum_list (map (total_charge_of cfg ?s') (high_part s))
          = sum_list (map (total_charge_of cfg s) (high_part s))"
    using high_part_subset [of s] assms(2)
    by (intro arg_cong [where f = sum_list] map_cong) (auto simp: total_charge_of_def)
  with assms high_part_subset [of s] show ?thesis
    unfolding pool_ok_def hp by (auto split: option.splits)
qed

lemma evict_inv_off:
  assumes "evict_inv cfg s" "fresh s e"
  shows "evict_inv cfg (s\<lparr>heap := (heap s)(e := x)\<rparr>)"
proof -
  from assms(2) have a: "\<And>i. e \<notin> set (list_ht (table s) i)" "\<And>i. e \<notin> set (list_cbht (cbhtable s) i)"
    and l: "e \<notin> set (lru s)"
    by (auto simp: fresh_def table_entries_def cbht_entries_def)
  from assms(1) have t: "chains_ok (heap s) (length_bits_ht (table s)) (list_ht (table s))"
    and c: "chains_ok (heap s) (length_bits_cbht (cbhtable s)) (list_cbht (cbhtable s))"
    and d: "distinct (lru s)" and k: "lru_dca_ok cfg s"
    by (simp_all add: evict_inv_def tbl_inv_def cbht_inv_def)
  have h: "(heap s)(e := x) = heap (s\<lparr>heap := (heap s)(e := x)\<rparr>)" by simp
  have "(heap (s\<lparr>heap := (heap s)(e := x)\<rparr>)) a = heap s a" if "a \<in> set (lru s)" for a
    using that l by auto
  then have "lru_dca_ok cfg (s\<lparr>heap := (heap s)(e := x)\<rparr>) = lru_dca_ok cfg s"
    unfolding lru_dca_ok_def by (simp cong: ball_cong)
  with k chains_ok_off [OF t a(1), of x] chains_ok_off [OF c a(2), of x] d show ?thesis
    by (simp add: evict_inv_def tbl_inv_def cbht_inv_def)
qed

lemma vanilla_path_off:
  assumes "CBHTturnoff cfg = 0" "LRUHandleTable_Lookup (heap s) (table s) k h = Some e"
  shows "\<exists>g' s'. vanilla_path cfg mytid g s k h = Some (Some e, g', s')
           \<and> value_ptr (heap s' e) = value_ptr (heap s e)"
  using assms by (simp add: vanilla_path_def Let_def upd_def)

text \<open>
  Insert over an entry of the same key. Let \<open>s1\<close> be the shard after the eviction that
  Insert runs for the new charge and \<open>evicted\<close> the handles it took off. If the insert
  is admitted and the primary table of \<open>s1\<close> still holds an entry \<open>old\<close> under the key,
  Insert returns OkOverwritten, the \<open>in_cache\<close> flag of \<open>old\<close> is clear, and if
  \<open>old\<close> had no references it is off the LRU list, its charge is subtracted from the
  usage and it is freed once, after the evicted handles (it is not one of them); with
  references the usage grows by the new charge and \<open>old\<close> is not freed. The primary
  table then holds the new entry \<open>e\<close> under the key, with the new value, and a Lookup
  that is answered from the primary table (hot index disabled) returns \<open>e\<close>.
\<close>

theorem Insert_overwrites:
  fixes cfg :: Config and s :: LRUCacheShard and e :: addr and mem :: LRUHandle and k :: Slice
    and h :: u32 and v :: nat and c :: size_t and helper :: "CacheItemHelper option"
    and priority :: Priority
  defines "s0 \<equiv> s\<lparr>heap := (heap s)(e := new_handle mem k h v c helper priority)\<rparr>"
  defines "tc \<equiv> total_charge_of cfg s0 e"
  defines "s1 \<equiv> fst (EvictFromLRU cfg tc s0 [])"
  defines "evicted \<equiv> snd (EvictFromLRU cfg tc s0 [])"
  assumes fr: "fresh s e" and pool: "pool_ok cfg s" and inv: "evict_inv cfg s"
    and adm: "\<not> (usage s1 + tc > capacity s1 \<and> (strict_capacity_limit s \<or> handle = None))"
    and old: "LRUHandleTable_Lookup (heap s1) (table s1) k h = Some old"
  shows "\<exists>s'. Insert cfg mytid s e mem k h v c helper handle priority
                = Some (OkOverwritten, if handle = None then None else Some (Some e), s')
           \<and> \<not> in_cache (heap s' old)
           \<and> (if refs (heap s old) = 0
              then old \<notin> set (lru s') \<and> usage s' = usage s1 + tc - total_charge_of cfg s old
                 \<and> freed s' = freed s @ evicted @ [old] \<and> old \<notin> set evicted
              else usage s' = usage s1 + tc \<and> freed s' = freed s @ evicted)
           \<and> LRUHandleTable_Lookup (heap s') (table s') k h = Some e
           \<and> value_ptr (heap s' e) = v \<and> in_cache (heap s' e)
           \<and> (CBHTturnoff cfg = 0 \<longrightarrow>
                (\<exists>g' s''. Lookup cfg tid g s' k h lhelper lpriority wait e2 mem2 = Some (Some e, g', s'')
                    \<and> value_ptr (heap s'' e) = v))"
proof -
  from fr have e_lru: "e \<notin> set (lru s)" by (simp add: fresh_def)
  have p0: "pool_ok cfg s0" unfolding s0_def using pool e_lru by (rule pool_ok_off)
  have i0: "evict_inv cfg s0" unfolding s0_def using inv fr by (rule evict_inv_off)
  have f0: "fresh s0 e" using fr by (simp add: fresh_def s0_def)
  have he: "key_data (heap s0 e) = k" "hash (heap s0 e) = h" "value_ptr (heap s0 e) = v"
    "in_cache (heap s0 e)"
    by (simp_all add: s0_def new_handle_def)
  have st: "strict_capacity_limit s0 = strict_capacity_limit s" "freed s0 = freed s"
    by (simp_all add: s0_def)
  have adm0: "\<not> (usage (fst (EvictFromLRU cfg (total_charge_of cfg s0 e) s0 [])) + total_charge_of cfg s0 e
                  > capacity (fst (EvictFromLRU cfg (total_charge_of cfg s0 e) s0 []))
                \<and> (strict_capacity_limit s0 \<or> handle = None))"
    using adm by (simp add: s1_def tc_def st)
  have old0: "LRUHandleTable_Lookup (heap (fst (EvictFromLRU cfg (total_charge_of cfg s0 e) s0 [])))
                (table (fst (EvictFromLRU cfg (total_charge_of cfg s0 e) s0 [])))
                (key_data (heap s0 e)) (hash (heap s0 e)) = Some old"
    using old by (simp add: s1_def tc_def he)
  from InsertItem_overwrite [OF p0 i0 f0 adm0 old0, of mytid True, folded tc_def, folded s1_def evicted_def]
  obtain s' where
    r: "InsertItem cfg mytid s0 e handle True
          = Some (OkOverwritten, if handle = None then None else Some (Some e), s')"
    and a1: "\<not> in_cache (heap s' old)"
    and a2: "if refs (heap s1 old) = 0
              then old \<notin> set (lru s') \<and> usage s' = usage s1 + tc - total_charge_of cfg s1 old
                 \<and> freed s' = freed s0 @ evicted @ [old] \<and> old \<notin> set evicted
              else usage s' = usage s1 + tc \<and> freed s' = freed s0 @ evicted"
    and b3: "LRUHandleTable_Lookup (heap s') (table s') (key_data (heap s0 e)) (hash (heap s0 e)) = Some e"
    and b4: "value_ptr (heap s' e) = value_ptr (heap s0 e)"
    and b5: "in_cache (heap s' e) = in_cache (heap s0 e)"
    and a7: "heap s1 old = heap s0 old" and oe: "old \<noteq> e"
    by blast
  from b3 have a3: "LRUHandleTable_Lookup (heap s') (table s') k h = Some e" by (simp add: he)
  from b4 have a4: "value_ptr (heap s' e) = v" by (simp add: he)
  from b5 have a5: "in_cache (heap s' e)" by (simp add: he)
  have ho: "heap s1 old = heap s old" using a7 oe by (simp add: s0_def)
  have "metadata_charge_policy s1 = metadata_charge_policy s"
    using EvictFromLRU_frame [of cfg tc s0 "[]"] by (simp add: s1_def s0_def)
  then have tco: "total_charge_of cfg s1 old = total_charge_of cfg s old"
    by (simp add: total_charge_of_def ho)
  have ins: "Insert cfg mytid s e mem k h v c helper handle priority
               = Some (OkOverwritten, if handle = None then None else Some (Some e), s')"
    using r by (simp add: Insert_def s0_def)
  have lk: "CBHTturnoff cfg = 0 \<longrightarrow>
                (\<exists>g' s''. Lookup cfg tid g s' k h lhelper lpriority wait e2 mem2 = Some (Some e, g', s'')
                    \<and> value_ptr (heap s'' e) = v)"
  proof
    assume z: "CBHTturnoff cfg = 0"
    from vanilla_path_off [OF z a3, of tid g] obtain g' s'' where
      "vanilla_path cfg tid g s' k h = Some (Some e, g', s'')" "value_ptr (heap s'' e) = v"
      using a4 by auto
    with z show "\<exists>g' s''. Lookup cfg tid g s' k h lhelper lpriority wait e2 mem2 = Some (Some e, g', s'')
                    \<and> value_ptr (heap s'' e) = v"
      by (simp add: Lookup_def dca_path_def)
  qed
  from ins a1 a2 a3 a4 a5 lk show ?thesis
    unfolding ho tco st by blast
qed

lemma pool_ok_shard_lru: "pool_ok cfg0 shard_lru"
  by (simp add: pool_ok_def high_part_def shard_lru_def ex_defs LRUCacheShard_new_def
      LRUHandleTable_new_def CBHTable_new_def)

lemma shard_held_ok: "pool_ok cfg_off shard_held \<and> evict_inv cfg_off shard_held \<and> fresh shard_held 9"
  by (simp add: pool_ok_def high_part_def evict_inv_def tbl_inv_def cbht_inv_def chains_ok_def
      lru_dca_ok_def fresh_def table_entries_def cbht_entries_def bucket_index_def
      cfg_off_def ex_defs LRUCacheShard_new_def LRUHandleTable_new_def CBHTable_new_def)

theorem Insert_overwrites_witness:
  "fresh shard_lru 9 \<and> pool_ok cfg0 shard_lru \<and> evict_inv cfg0 shard_lru
   \<and> LRUHandleTable_Lookup (heap shard_lru) (table shard_lru) ''b'' 0 = Some 8
   \<and> refs (heap shard_lru 8) = 0
   \<and> (\<exists>s'. Insert cfg0 0 shard_lru 9 zeroed ''b'' 0 5 10 None None LOW = Some (OkOverwritten, None, s')
          \<and> \<not> in_cache (heap s' 8) \<and> 8 \<notin> set (lru s') \<and> usage s' = 50 \<and> freed s' = [8]
          \<and> LRUHandleTable_Lookup (heap s') (table s') ''b'' 0 = Some 9
          \<and> value_ptr (heap s' 9) = 5 \<and> in_cache (heap s' 9))
   \<and> pool_ok cfg_off shard_held \<and> evict_inv cfg_off shard_held \<and> fresh shard_held 9
   \<and> CBHTturnoff cfg_off = 0
   \<and> LRUHandleTable_Lookup (heap shard_held) (table shard_held) ''a'' 0 = Some 7
   \<and> refs (heap shard_held 7) \<noteq> 0
   \<and> (\<exists>s'. Insert cfg_off 0 shard_held 9 zeroed ''a'' 0 6 10 None None LOW = Some (OkOverwritten, None, s')
          \<and> \<not> in_cache (heap s' 7) \<and> usage s' = 50 \<and> freed s' = []
          \<and> (\<exists>g' s''. Lookup cfg_off 0 g0 s' ''a'' 0 None LOW True 10 zeroed = Some (Some 9, g', s'')
                \<and> value_ptr (heap s'' 9) = 6))"
proof -
  define sa where "sa = shard_lru\<lparr>heap := (heap shard_lru)(9 := new_handle zeroed ''b'' 0 5 10 None LOW)\<rparr>"
  define sb where "sb = shard_held\<lparr>heap := (heap shard_held)(9 := new_handle zeroed ''a'' 0 6 10 None LOW)\<rparr>"
  have f1: "fresh shard_lru 9" using fresh_shard_lru by simp
  have tca: "total_charge_of cfg0 sa 9 = 10"
    by (simp add: sa_def total_charge_of_def CalcTotalCharge_def new_handle_def shard_lru_def
        ex_defs LRUCacheShard_new_def)
  have tcb: "total_charge_of cfg_off sb 9 = 10"
    by (simp add: sb_def total_charge_of_def CalcTotalCharge_def new_handle_def
        ex_defs LRUCacheShard_new_def)
  have ua: "usage sa = 80" "capacity sa = 100" "freed sa = []"
    by (simp_all add: sa_def shard_lru_def ex_defs LRUCacheShard_new_def)
  have ub: "usage sb = 40" "capacity sb = 100" "freed sb = []"
    by (simp_all add: sb_def ex_defs LRUCacheShard_new_def)
  have eva: "EvictFromLRU cfg0 10 sa [] = (sa, [])"
    by (subst EvictFromLRU.simps) (simp add: ua)
  have evb: "EvictFromLRU cfg_off 10 sb [] = (sb, [])"
    by (subst EvictFromLRU.simps) (simp add: ub)
  have la: "LRUHandleTable_Lookup (heap shard_lru) (table shard_lru) ''b'' 0 = Some 8"
    "LRUHandleTable_Lookup (heap sa) (table sa) ''b'' 0 = Some 8"
    by (simp_all add: sa_def LRUHandleTable_Lookup_def FindPointer_def bucket_index_def deref_def
        shard_lru_def ex_defs LRUCacheShard_new_def LRUHandleTable_new_def CBHTable_new_def)
  have lb: "LRUHandleTable_Lookup (heap shard_held) (table shard_held) ''a'' 0 = Some 7"
    "LRUHandleTable_Lookup (heap sb) (table sb) ''a'' 0 = Some 7"
    by (simp_all add: sb_def LRUHandleTable_Lookup_def FindPointer_def bucket_index_def deref_def
        ex_defs LRUCacheShard_new_def LRUHandleTable_new_def CBHTable_new_def)
  have ra: "refs (heap shard_lru 8) = 0" "total_charge_of cfg0 shard_lru 8 = 40"
    by (simp_all add: total_charge_of_def CalcTotalCharge_def shard_lru_def ex_defs LRUCacheShard_new_def)
  have fz: "freed shard_lru = []" "freed shard_held = []"
    by (simp_all add: shard_lru_def ex_defs LRUCacheShard_new_def)
  have rb: "refs (heap shard_held 7) \<noteq> 0" "CBHTturnoff cfg_off = 0"
    by (simp_all add: cfg_off_def ex_defs)
  have a: "\<exists>s'. Insert cfg0 0 shard_lru 9 zeroed ''b'' 0 5 10 None None LOW = Some (OkOverwritten, None, s')
          \<and> \<not> in_cache (heap s' 8) \<and> 8 \<notin> set (lru s') \<and> usage s' = 50 \<and> freed s' = [8]
          \<and> LRUHandleTable_Lookup (heap s') (table s') ''b'' 0 = Some 9
          \<and> value_ptr (heap s' 9) = 5 \<and> in_cache (heap s' 9)"
    using Insert_overwrites [OF f1 pool_ok_shard_lru evict_inv_shard_lru, of zeroed "''b''" 0 5 10 None LOW None 8 0 0 g0 None LOW True 10 zeroed,
        folded sa_def]
    by (simp add: tca eva ua la ra fz) blast
  have b: "\<exists>s'. Insert cfg_off 0 shard_held 9 zeroed ''a'' 0 6 10 None None LOW = Some (OkOverwritten, None, s')
          \<and> \<not> in_cache (heap s' 7) \<and> usage s' = 50 \<and> freed s' = []
          \<and> (\<exists>g' s''. Lookup cfg_off 0 g0 s' ''a'' 0 None LOW True 10 zeroed = Some (Some 9, g', s'')
                \<and> value_ptr (heap s'' 9) = 6)"
    using Insert_overwrites [of shard_held 9 cfg_off zeroed "''a''" 0 6 10 None LOW None 7 0 0 g0 None LOW True 10 zeroed,
        folded sb_def] shard_held_ok
    by (simp add: tcb evb ub lb rb fz) blast
  from f1 pool_ok_shard_lru evict_inv_shard_lru la ra a shard_held_ok rb lb b show ?thesis
    by simp
qed

text \<open>
  An Insert under a key that has an entry, where the eviction for the new charge takes
  the old entry off before the table is written: the entry 7 under the key \<open>''a''\<close> is
  at the cold end of a list using 80 of 100, the new entry has charge 60. The status is
  OK, not OkOverwritten.
\<close>

theorem Insert_over_evicted_entry:
  "LRUHandleTable_Lookup (heap shard_lru) (table shard_lru) ''a'' 0 = Some 7
   \<and> (case Insert cfg0 0 shard_lru 9 zeroed ''a'' 0 5 60 None None LOW of
        None \<Rightarrow> False
      | Some (st, hdl, s') \<Rightarrow>
          st = OK \<and> freed s' = [7] \<and> LRUHandleTable_Lookup (heap s') (table s') ''a'' 0 = Some 9)"
proof -
  have two: "\<And>f :: nat \<Rightarrow> int. (\<Sum>i = 0 ..< 2. f i) = f 0 + f 1" by (simp add: numeral_2_eq_2)
  show ?thesis
    by (simp add: Insert_def InsertItem_def new_handle_def EvictFromLRU.simps evict_one_def
        LRU_Remove_def remove_from_dca_def LRU_Insert_def LRUHandleTable_Insert_def chain_store_def
        free_entries_def Free_def LRUHandleTable_Lookup_def
        Remove_default_dontforce_def CBHTable_Remove_def CBHTable_FindPointer_def
        LRUHandleTable_Remove_def FindPointer_def bucket_index_def deref_def chain_unlink_def
        stamp_valid_def tally_loop_eq total_charge_of_def CalcTotalCharge_def upd_def Let_def two
        shard_lru_def ex_defs LRUCacheShard_new_def LRUHandleTable_new_def CBHTable_new_def)
qed

subsection \<open>Insert over an entry held in a full hot index\<close>

text \<open>
  The shard \<open>shard_hot\<close> is in order, and the address 9 is free in it.
\<close>

lemma shard_hot_ok: "pool_ok cfg0 shard_hot \<and> evict_inv cfg0 shard_hot \<and> fresh shard_hot 9"
  by (auto simp: pool_ok_def high_part_def evict_inv_def tbl_inv_def cbht_inv_def chains_ok_def
      lru_dca_ok_def fresh_def table_entries_def cbht_entries_def bucket_index_def
      shard_hot_def ex_defs LRUCacheShard_new_def LRUHandleTable_new_def CBHTable_new_def)

text \<open>
  \<open>EvictFIFO\<close> on a hot index whose two entries nobody holds: the Lookup of each probe
  counts a reference of its own, so that Remove, which must not force, gives the entry
  back to the queue; after the four probes nothing is evicted.
\<close>

lemma EvictFIFO_shard_hot:
  assumes k: "key_data (hp 7) = ''a''" "key_data (hp 8) = ''b''" "hash (hp 7) = 0" "hash (hp 8) = 0"
    and st: "DCAstamp (hp 7) = 0" "DCAstamp_tc (hp 7) = 0" "DCAstamp (hp 8) = 1" "DCAstamp_tc (hp 8) = 2"
  shows "case EvictFIFO cfg0 0 hp (cbhtable shard_hot) of
           (r, hp', t') \<Rightarrow> r = None \<and> hp' = hp \<and> list_cbht t' = (\<lambda>_. [])(0 := [7, 8])
              \<and> elems_cbht t' = 2 \<and> length_bits_cbht t' = 2"
proof -
  have two: "\<And>f :: nat \<Rightarrow> int. (\<Sum>i = 0 ..< 2. f i) = f 0 + f 1" by (simp add: numeral_2_eq_2)
  have e4: "(2::nat) ^ CBHTbitlength cfg0 = Suc (Suc (Suc (Suc 0)))" by (simp add: cfg0_def)
  show ?thesis
    unfolding EvictFIFO_def e4
    by (simp add:
        CBHTable_Lookup_def CBHTable_Remove_def CBHTable_FindPointer_def stamp_valid_def
        tally_loop_eq two bucket_index_def deref_def Let_def k st
        shard_hot_def cfg0_def CBHTable_new_def)
qed

text \<open>
  C6. An Insert over the key of the handle 7, which is chained in the full hot index:
  the status is OkOverwritten, the old handle is freed, and the primary table holds the
  new handle 9. But \<open>CBHTable::Insert\<close> refuses the new handle, the index being still
  full after \<open>EvictFIFO\<close>, and the freed handle 7 stays chained: a Lookup of the key,
  with the hot index on for the shard, returns the handle 7 with the old value 5.
\<close>

theorem Insert_leaves_old_in_hot_index:
  "LRUHandleTable_Lookup (heap shard_hot) (table shard_hot) ''a'' 0 = Some 7
   \<and> value_ptr (heap shard_hot 7) = 5 \<and> refs (heap shard_hot 7) = 0
   \<and> CBHTState g_on (hashshard_of cfg0 0)
   \<and> (case Insert cfg0 0 shard_hot 9 zeroed ''a'' 0 6 10 None None LOW of
        None \<Rightarrow> False
      | Some (st, hdl, s') \<Rightarrow>
          st = OkOverwritten \<and> freed s' = [7] \<and> \<not> in_cache (heap s' 7)
          \<and> LRUHandleTable_Lookup (heap s') (table s') ''a'' 0 = Some 9
          \<and> value_ptr (heap s' 9) = 6 \<and> \<not> indca (heap s' 9)
          \<and> list_cbht (cbhtable s') 0 = [7, 8]
          \<and> (case Lookup cfg0 0 g_on s' ''a'' 0 None LOW True 10 zeroed of
                Some (Some x, g', s'') \<Rightarrow> x = 7 \<and> value_ptr (heap s'' x) = 5
              | _ \<Rightarrow> False))"
proof -
  define nh where "nh = new_handle zeroed ''a'' 0 6 10 None LOW"
  define s0 where "s0 = shard_hot\<lparr>heap := (heap shard_hot)(9 := nh)\<rparr>"
  have a: "LRUHandleTable_Lookup (heap shard_hot) (table shard_hot) ''a'' 0 = Some 7"
    "value_ptr (heap shard_hot 7) = 5" "refs (heap shard_hot 7) = 0"
    "CBHTState g_on (hashshard_of cfg0 0)"
    by (simp_all add: LRUHandleTable_Lookup_def FindPointer_def bucket_index_def deref_def g_on_def g0_def
        shard_hot_def ex_defs LRUCacheShard_new_def LRUHandleTable_new_def CBHTable_new_def)
  have h0: "heap s0 7 = zeroed\<lparr>key_data := ''a'', value_ptr := 5, charge := 40, in_cache := True,
                              indca := True\<rparr>"
    "heap s0 8 = zeroed\<lparr>key_data := ''b'', value_ptr := 4, charge := 40, in_cache := True,
                              indca := True, DCAstamp := 1, DCAstamp_tc := 2\<rparr>"
    "heap s0 9 = nh"
    by (simp_all add: s0_def shard_hot_def hp0_def)
  have f0: "usage s0 = 80" "capacity s0 = 100" "lru s0 = []" "strict_capacity_limit s0 = False"
    "metadata_charge_policy s0 = kDontChargeCacheMetadata" "cbhtable s0 = cbhtable shard_hot"
    "freed s0 = []" "secondary_cache s0 = None" "high_pri_pool_ratio s0 = 0" "lru_low_pri s0 = None"
    "length_bits_ht (table s0) = 4" "list_ht (table s0) = (\<lambda>_. [])(0 := [7, 8])"
    by (simp_all add: s0_def shard_hot_def shard0_def LRUCacheShard_new_def LRUHandleTable_new_def)
  have nhf: "key_data nh = ''a''" "hash nh = 0" "charge nh = 10" "value_ptr nh = 6" "\<not> indca nh"
    "\<not> is_high_pri nh" "\<not> has_hit nh"
    by (simp_all add: nh_def new_handle_def)
  have ins: "Insert cfg0 0 shard_hot 9 zeroed ''a'' 0 6 10 None None LOW = InsertItem cfg0 0 s0 9 None True"
    by (simp add: Insert_def s0_def nh_def)
  have tc: "total_charge_of cfg0 s0 9 = 10"
    by (simp add: total_charge_of_def CalcTotalCharge_def f0 h0 nhf)
  have ev: "EvictFromLRU cfg0 10 s0 [] = (s0, [])"
    by (subst EvictFromLRU.simps) (simp add: f0)
  have adm: "(usage s0 + 10 > capacity s0 \<and> (strict_capacity_limit s0 \<or> (None :: addr option option) = None)) = False"
    by (simp add: f0)
  define tbl where "tbl = (table s0)\<lparr>list_ht := (list_ht (table s0))(0 := [9, 8])\<rparr>"
  have li: "LRUHandleTable_Insert (heap s0) (table s0) 9 = (Some 7, tbl)"
    by (simp add: LRUHandleTable_Insert_def FindPointer_def bucket_index_def deref_def chain_store_def
        Let_def f0 h0 nhf zeroed_def tbl_def)
  define hpx where "hpx = upd (heap s0) 7 (\<lambda>h. h\<lparr>in_cache := False\<rparr>)"
  have hx: "hpx 7 = zeroed\<lparr>key_data := ''a'', value_ptr := 5, charge := 40, in_cache := False,
                              indca := True\<rparr>"
    "hpx 8 = heap s0 8" "hpx 9 = nh"
    by (simp_all add: hpx_def upd_def h0)
  define te where "te = snd (snd (EvictFIFO cfg0 0 hpx (cbhtable shard_hot)))"
  have "case EvictFIFO cfg0 0 hpx (cbhtable shard_hot) of
           (r, hp', t') \<Rightarrow> r = None \<and> hp' = hpx \<and> list_cbht t' = (\<lambda>_. [])(0 := [7, 8])
              \<and> elems_cbht t' = 2 \<and> length_bits_cbht t' = 2"
    by (rule EvictFIFO_shard_hot) (simp_all add: hx h0 zeroed_def)
  then have ef: "EvictFIFO cfg0 0 hpx (cbhtable shard_hot) = (None, hpx, te)"
    and tef: "list_cbht te = (\<lambda>_. [])(0 := [7, 8])" "elems_cbht te = 2" "length_bits_cbht te = 2"
    by (simp_all add: te_def split_beta prod_eq_iff)
  have full: "IsTableFull (cbhtable shard_hot)" "IsTableFull te"
    by (simp_all add: IsTableFull_def tef shard_hot_def cfg0_def CBHTable_new_def)
  have ci: "CBHTable_Insert cfg0 0 hpx (cbhtable shard_hot) 9 = (Some 9, hpx, te)"
    by (simp add: CBHTable_Insert_def full ef)
  define s1a where "s1a = s0\<lparr>table := tbl, usage := usage s0 + 10\<rparr>"
  define s4 where "s4 = s1a\<lparr>heap := hpx, usage := 50, cbhtable := te\<rparr>"
  have tc7: "total_charge_of cfg0 (s1a\<lparr>heap := hpx\<rparr>) 7 = 40"
    by (simp add: total_charge_of_def CalcTotalCharge_def s1a_def f0 hx zeroed_def)
  have s2: "s1a\<lparr>heap := upd (heap s1a) 7 (\<lambda>h. h\<lparr>in_cache := False\<rparr>)\<rparr> = s1a\<lparr>heap := hpx\<rparr>"
    by (simp add: hpx_def s1a_def)
  have r7: "refs (hpx 7) = 0" "indca (hpx 7)" by (simp_all add: hx zeroed_def)
  have lr: "LRU_Remove cfg0 (s1a\<lparr>heap := hpx\<rparr>) 7 = s1a\<lparr>heap := hpx\<rparr>"
    by (simp add: LRU_Remove_def s1a_def f0)
  have ct: "CBHTturnoff cfg0 \<noteq> 0" by (simp add: cfg0_def)
  have f1a: "usage s1a = 90" "cbhtable s1a = cbhtable shard_hot" by (simp_all add: s1a_def f0)
  have oo: "overwrite_old cfg0 0 s1a 9 7 [] = (s4, [7])"
    unfolding overwrite_old_def Let_def s2
    by (simp add: r7 lr tc7 ct f1a ci s4_def)
  define s5 where "s5 = s4\<lparr>lru := [9], heap := upd hpx 9 (\<lambda>h. h\<lparr>in_high_pri_pool := False\<rparr>),
                          lru_low_pri := Some 9, lru_usage := lru_usage s4 + 10\<rparr>"
  have f4: "heap s4 = hpx" "lru s4 = []" "lru_low_pri s4 = None" "high_pri_pool_ratio s4 = 0"
    "secondary_cache s4 = None" "freed s4 = []" "table s4 = tbl" "cbhtable s4 = te"
    "metadata_charge_policy s4 = kDontChargeCacheMetadata"
    by (simp_all add: s4_def s1a_def f0)
  have lin: "LRU_Insert cfg0 s4 9 = Some s5"
    by (simp add: LRU_Insert_def Let_def f4 total_charge_of_def CalcTotalCharge_def hx nhf s5_def)
  define s' where "s' = free_entries s5 [7]"
  have ii: "InsertItem cfg0 0 s0 9 None True = Some (OkOverwritten, None, s')"
    unfolding InsertItem_def tc Let_def ev prod.case adm if_False li s1a_def [symmetric] option.case oo
    by (simp add: f4 hx nhf lin s'_def)
  have fs: "freed s' = [7]" "heap s' = upd hpx 9 (\<lambda>h. h\<lparr>in_high_pri_pool := False\<rparr>)"
    "table s' = tbl" "cbhtable s' = te"
    by (simp_all add: s'_def free_entries_def Free_def s5_def f4)
  have hs: "heap s' 7 = hpx 7" "heap s' 8 = hpx 8" "heap s' 9 = nh\<lparr>in_high_pri_pool := False\<rparr>"
    by (simp_all add: fs upd_def hx)
  have pl: "LRUHandleTable_Lookup (heap s') (table s') ''a'' 0 = Some 9"
    by (simp add: LRUHandleTable_Lookup_def FindPointer_def bucket_index_def deref_def Let_def
        fs(3) tbl_def f0 hs nhf)
  have cl: "fst (CBHTable_Lookup cfg0 0 (heap s') (cbhtable s') ''a'' 0) = Some 7"
    by (simp add: CBHTable_Lookup_def CBHTable_FindPointer_def bucket_index_def deref_def Let_def
        fs(4) tef hs hx zeroed_def)
  have lk: "case Lookup cfg0 0 g_on s' ''a'' 0 None LOW True 10 zeroed of
                Some (Some x, g', s'') \<Rightarrow> x = 7 \<and> value_ptr (heap s'' x) = 5
              | _ \<Rightarrow> False"
    using cl a(4)
    by (simp add: Lookup_def dca_path_def pl Let_def split_beta cfg0_def hs hx zeroed_def
        split: option.splits)
  have r: "\<not> in_cache (heap s' 7)" "value_ptr (heap s' 9) = 6" "\<not> indca (heap s' 9)"
    "list_cbht (cbhtable s') 0 = [7, 8]"
    by (simp_all add: hs hx nhf zeroed_def fs(4) tef)
  from a fs(1) pl lk r show ?thesis
    by (simp add: ins ii)
qed

end
